theory Spec2Isabelle
  imports Complex_Main "HOL-Library.Multiset"
begin

section \<open>The scene host, as far as the cell aggregation engine sees it\<close>

text \<open>
  The program is \<^verbatim>\<open>src/eg/sg.go\<close>: a trooper made of cubes and panels, each of them a
  counted box (\<^verbatim>\<open>cbox\<close>) with attach, detach and reset.

  Modelling decisions, all of them visible in the definitions below:
  \<^item> Go's \<^verbatim>\<open>int\<close> is \<open>int\<close>: the counts of a trooper that fits in memory stay far below
    \<open>2^63\<close>. Go's \<^verbatim>\<open>float64\<close> is \<open>real\<close>: rounding is not modelled.
  \<^item> A \<^verbatim>\<open>vu.Part\<close> is a value holding what the code sets on it (location, scale, role,
    mesh, material); an attribute the code never sets is \<open>None\<close> or empty. The group
    nodes (\<^verbatim>\<open>cube.part\<close>, \<^verbatim>\<open>block.part\<close>, \<^verbatim>\<open>trooper.part\<close>) and the engine handle carry
    no data of their own and are left out; a part is owned when it stands in
    \<^verbatim>\<open>cells\<close>, \<^verbatim>\<open>slab\<close>, \<^verbatim>\<open>neo\<close> or \<^verbatim>\<open>center\<close>.
  \<^item> Mutation through pointers is state passing: a method takes the object and returns
    the updated one.
  \<^item> A Go panic (index out of range, failed type assertion) is the result \<open>None\<close>.
  \<^item> \<^verbatim>\<open>sort.Sort\<close> belongs to Go's standard library, not to this repository: it is a
    parameter \<open>srt\<close> of every function that sorts, given the comparator (\<^verbatim>\<open>Less\<close>) and
    the list. It works through \<^verbatim>\<open>Swap\<close> alone, so it returns a permutation of the list;
    the theorems assume no more of it (\<open>sorter_ok\<close> below).
  \<^item> \<^verbatim>\<open>newTrooper\<close> is modelled for every integer level. At level -1 Go divides by zero
    in floating point where HOL has \<open>1 / 0 = 0\<close>; no theorem is about a level below 0.
\<close>

datatype V3 = V3 (X: real) (Y: real) (Z: real)

record part =
  location :: "V3 option"
  scale :: "V3 option"
  role :: string
  mesh :: string
  material :: string

definition AddPart :: part where
  "AddPart = \<lparr>location = None, scale = None, role = [], mesh = [], material = []\<rparr>"

definition SetLocation :: "real \<Rightarrow> real \<Rightarrow> real \<Rightarrow> part \<Rightarrow> part" where
  "SetLocation x y z p = p\<lparr>location := Some (V3 x y z)\<rparr>"

definition SetScale :: "real \<Rightarrow> real \<Rightarrow> real \<Rightarrow> part \<Rightarrow> part" where
  "SetScale x y z p = p\<lparr>scale := Some (V3 x y z)\<rparr>"

definition SetRole :: "string \<Rightarrow> part \<Rightarrow> part" where
  "SetRole r p = p\<lparr>role := r\<rparr>"

definition SetMesh :: "string \<Rightarrow> part \<Rightarrow> part" where
  "SetMesh m p = p\<lparr>mesh := m\<rparr>"

definition SetMaterial :: "string \<Rightarrow> part \<Rightarrow> part" where
  "SetMaterial m p = p\<lparr>material := m\<rparr>"

section \<open>cbox: the counted box shared by cubes and panels\<close>

record cbox =
  ccnt :: int
  cmax :: int
  cx :: real
  cy :: real
  cz :: real
  csize :: real

text \<open>
  The four function fields \<^verbatim>\<open>trashc, mergec, addc, remc\<close> that the owner sets. They are
  closures over the owner, so here they are functions on the owner's state, passed to
  the methods of \<^verbatim>\<open>cbox\<close>.
\<close>

record 's hooks =
  trashc :: "'s \<Rightarrow> 's option"
  mergec :: "'s \<Rightarrow> 's option"
  addc :: "'s \<Rightarrow> 's option"
  remc :: "'s \<Rightarrow> 's option"

definition attach ::
  "'a cbox_scheme hooks \<Rightarrow> 'a cbox_scheme \<Rightarrow> (bool \<times> 'a cbox_scheme) option" where
  "attach h c =
     (if ccnt c \<ge> 0 \<and> ccnt c < cmax c then
        (let c1 = c\<lparr>ccnt := ccnt c + 1\<rparr> in
         if ccnt c1 = cmax c1 then map_option (Pair True) (mergec h c1)
         else map_option (Pair True) (addc h c1))
      else Some (False, c))"

text \<open>The loop of \<^verbatim>\<open>reset\<close>: \<^verbatim>\<open>for cnt := 0; cnt < cellCount; cnt++ { c.attach() }\<close>.\<close>

function reset_loop ::
  "'a cbox_scheme hooks \<Rightarrow> int \<Rightarrow> int \<Rightarrow> 'a cbox_scheme \<Rightarrow> 'a cbox_scheme option" where
  "reset_loop h cnt cellCount c =
     (if cnt < cellCount then
        (case attach h c of
           None \<Rightarrow> None
         | Some (_, c') \<Rightarrow> reset_loop h (cnt + 1) cellCount c')
      else Some c)"
  by pat_completeness auto
termination
  by (relation "measure (\<lambda>(h, cnt, cellCount, c). nat (cellCount - cnt))") auto

declare reset_loop.simps [simp del]

definition reset ::
  "'a cbox_scheme hooks \<Rightarrow> int \<Rightarrow> 'a cbox_scheme \<Rightarrow> 'a cbox_scheme option" where
  "reset h cellCount c =
     (case trashc h c of
        None \<Rightarrow> None
      | Some c1 \<Rightarrow>
          (let c2 = c1\<lparr>ccnt := 0\<rparr>;
               cellCount' = (if cellCount > cmax c2 then cmax c2 else cellCount)
           in reset_loop h 0 cellCount' c2))"

definition detach ::
  "'a cbox_scheme hooks \<Rightarrow> 'a cbox_scheme \<Rightarrow> (bool \<times> 'a cbox_scheme) option" where
  "detach h c =
     (if ccnt c > 0 \<and> ccnt c \<le> cmax c then
        (if ccnt c = cmax c then map_option (Pair True) (reset h (cmax c - 1) c)
         else (case remc h c of
                 None \<Rightarrow> None
               | Some c1 \<Rightarrow> Some (True, c1\<lparr>ccnt := ccnt c1 - 1\<rparr>)))
      else Some (False, c))"

section \<open>cube\<close>

record cube = cbox +
  cells :: "part list"
  centers :: "V3 list"

definition newCube :: "real \<Rightarrow> real \<Rightarrow> real \<Rightarrow> real \<Rightarrow> cube" where
  "newCube x y z cubeSize =
     (let qs = cubeSize * 0.25 in
      \<lparr>ccnt = 0, cmax = 8, cx = x, cy = y, cz = z, csize = cubeSize,
       cells = [],
       centers =
         [V3 (x - qs) (y - qs) (z - qs),
          V3 (x - qs) (y - qs) (z + qs),
          V3 (x - qs) (y + qs) (z - qs),
          V3 (x - qs) (y + qs) (z + qs),
          V3 (x + qs) (y - qs) (z - qs),
          V3 (x + qs) (y - qs) (z + qs),
          V3 (x + qs) (y + qs) (z - qs),
          V3 (x + qs) (y + qs) (z + qs)]\<rparr>)"

text \<open>The part that \<^verbatim>\<open>cube.addCell\<close> builds at a centre, and the one \<^verbatim>\<open>cube.merge\<close> builds.\<close>

definition sub_cell :: "cube \<Rightarrow> V3 \<Rightarrow> part" where
  "sub_cell c center =
     (let cell = SetLocation (X center) (Y center) (Z center) AddPart;
          cell = SetMaterial ''green'' (SetMesh ''cube'' (SetRole ''flat'' cell));
          scl = csize c * 0.40
      in SetScale scl scl scl cell)"

definition merged_cell :: "cube \<Rightarrow> part" where
  "merged_cell c =
     (let cell = SetLocation (cx c) (cy c) (cz c) AddPart;
          cell = SetMaterial ''green'' (SetMesh ''cube'' (SetRole ''flat'' cell));
          scl = csize c - (csize c * 0.15)
      in SetScale scl scl scl cell)"

definition cube_addCell :: "cube \<Rightarrow> cube option" where
  "cube_addCell c =
     (let i = ccnt c - 1 in
      if 0 \<le> i \<and> i < int (length (centers c))
      then Some (c\<lparr>cells := cells c @ [sub_cell c (centers c ! nat i)]\<rparr>)
      else None)"

definition cube_removeCell :: "cube \<Rightarrow> cube option" where
  "cube_removeCell c =
     (let lst = length (cells c) in
      if lst = 0 then None
      else Some (c\<lparr>cells := take (lst - 1) (cells c)\<rparr>))"

function cube_trash :: "cube \<Rightarrow> cube option" where
  "cube_trash c =
     (if length (cells c) > 0 then
        (case cube_removeCell c of
           None \<Rightarrow> None
         | Some c' \<Rightarrow> cube_trash c')
      else Some c)"
  by pat_completeness auto
termination
  by (relation "measure (\<lambda>c. length (cells c))")
     (auto simp: cube_removeCell_def Let_def split: if_splits)

declare cube_trash.simps [simp del]

definition cube_merge :: "cube \<Rightarrow> cube option" where
  "cube_merge c =
     (case cube_trash c of
        None \<Rightarrow> None
      | Some c1 \<Rightarrow> Some (c1\<lparr>cells := cells c1 @ [merged_cell c1]\<rparr>))"

definition cube_hooks :: "cube hooks" where
  "cube_hooks =
     \<lparr>trashc = cube_trash, mergec = cube_merge, addc = cube_addCell, remc = cube_removeCell\<rparr>"

definition cube_attach :: "cube \<Rightarrow> (bool \<times> cube) option" where
  "cube_attach = attach cube_hooks"

definition cube_detach :: "cube \<Rightarrow> (bool \<times> cube) option" where
  "cube_detach = detach cube_hooks"

definition cube_reset :: "int \<Rightarrow> cube \<Rightarrow> cube option" where
  "cube_reset = reset cube_hooks"

subsection \<open>The two comparators handed to \<^verbatim>\<open>sort.Sort\<close>\<close>

type_synonym sorter = "(V3 \<Rightarrow> V3 \<Rightarrow> bool) \<Rightarrow> V3 list \<Rightarrow> V3 list"

definition csort_Dtoc :: "V3 \<Rightarrow> real" where
  "csort_Dtoc v = X v * X v + Y v * Y v + Z v * Z v"

definition csort_Less :: "V3 \<Rightarrow> V3 \<Rightarrow> bool" where
  "csort_Less a b = (csort_Dtoc a < csort_Dtoc b)"

definition ssort_Dtoc :: "real \<Rightarrow> real \<Rightarrow> real \<Rightarrow> V3 \<Rightarrow> real" where
  "ssort_Dtoc x y z v =
     (let dot = X v * x + Y v * y + Z v * z;
          dx = x * dot;
          dy = y * dot;
          dz = z * dot
      in dx * dx + dy * dy + dz * dz)"

definition ssort_Less :: "real \<Rightarrow> real \<Rightarrow> real \<Rightarrow> V3 \<Rightarrow> V3 \<Rightarrow> bool" where
  "ssort_Less x y z a b = (ssort_Dtoc x y z a < ssort_Dtoc x y z b)"

definition edgeSort :: "sorter \<Rightarrow> int \<Rightarrow> cube \<Rightarrow> cube option" where
  "edgeSort srt startCount c =
     cube_reset startCount (c\<lparr>centers := srt csort_Less (centers c)\<rparr>)"

definition panelSort :: "sorter \<Rightarrow> real \<Rightarrow> real \<Rightarrow> real \<Rightarrow> int \<Rightarrow> cube \<Rightarrow> cube option" where
  "panelSort srt rx ry rz startCount c =
     cube_reset startCount (c\<lparr>centers := srt (ssort_Less rx ry rz) (centers c)\<rparr>)"

section \<open>block: a panel of cubes\<close>

record block = cbox +
  lvl :: int
  slab :: "part option"
  cubes :: "cube list"

definition newBlock :: "real \<Rightarrow> real \<Rightarrow> real \<Rightarrow> int \<Rightarrow> block" where
  "newBlock x y z level =
     \<lparr>ccnt = 0, cmax = (level - 1) * (level - 1) * 8, cx = x, cy = y, cz = z, csize = 0,
      lvl = level, slab = None, cubes = []\<rparr>"

text \<open>
  \<^verbatim>\<open>addCube\<close>: the new cube is never nil, so the final \<^verbatim>\<open>if c != nil\<close> always runs; when no
  axis of the panel's centre dominates, the cube is appended unsorted and empty.
\<close>

definition addCube :: "sorter \<Rightarrow> real \<Rightarrow> real \<Rightarrow> real \<Rightarrow> real \<Rightarrow> block \<Rightarrow> block option" where
  "addCube srt x y z cubeSize b0 =
     (let b = b0\<lparr>csize := cubeSize\<rparr>;
          c = newCube x y z (csize b);
          r = (if (cx b > cy b \<and> cx b > cz b) \<or> (cx b < cy b \<and> cx b < cz b)
                 then panelSort srt 1 0 0 4 c
               else if (cy b > cx b \<and> cy b > cz b) \<or> (cy b < cx b \<and> cy b < cz b)
                 then panelSort srt 0 1 0 4 c
               else if (cz b > cx b \<and> cz b > cy b) \<or> (cz b < cx b \<and> cz b < cy b)
                 then panelSort srt 0 0 1 4 c
               else Some c)
      in case r of
           None \<Rightarrow> None
         | Some c' \<Rightarrow> Some (b\<lparr>ccnt := ccnt b + 4, cubes := cubes b @ [c']\<rparr>))"

text \<open>
  The inner loop of \<^verbatim>\<open>block.addCell\<close>: attach to the first cube with \<^verbatim>\<open>c.ccnt <= addeven\<close>
  and return. The flag tells whether such a cube was found.
\<close>

fun addCell_scan :: "int \<Rightarrow> cube list \<Rightarrow> (bool \<times> cube list) option" where
  "addCell_scan addeven [] = Some (False, [])"
| "addCell_scan addeven (c # cs) =
     (if ccnt c \<le> addeven then
        (case cube_attach c of
           None \<Rightarrow> None
         | Some (_, c') \<Rightarrow> Some (True, c' # cs))
      else
        (case addCell_scan addeven cs of
           None \<Rightarrow> None
         | Some (r, cs') \<Rightarrow> Some (r, c # cs')))"

text \<open>
  The outer loop, \<^verbatim>\<open>for addeven := 0; addeven < b.cubes[0].cmax; addeven++\<close>; reading
  \<^verbatim>\<open>b.cubes[0]\<close> of a panel without cubes panics. Falling out of the loop only logs.
\<close>

function block_addCell_from :: "int \<Rightarrow> block \<Rightarrow> block option" where
  "block_addCell_from addeven b =
     (case cubes b of
        [] \<Rightarrow> None
      | c0 # _ \<Rightarrow>
          if addeven < cmax c0 then
            (case addCell_scan addeven (cubes b) of
               None \<Rightarrow> None
             | Some (True, cs) \<Rightarrow> Some (b\<lparr>cubes := cs\<rparr>)
             | Some (False, _) \<Rightarrow> block_addCell_from (addeven + 1) b)
          else Some b)"
  by pat_completeness auto
termination
  by (relation "measure (\<lambda>(addeven, b). nat (cmax (hd (cubes b)) - addeven))") auto

declare block_addCell_from.simps [simp del]

definition block_addCell :: "block \<Rightarrow> block option" where
  "block_addCell b = block_addCell_from 0 b"

text \<open>\<^verbatim>\<open>block.removeCell\<close>: detach from the first cube that gives a cell.\<close>

fun removeCell_scan :: "cube list \<Rightarrow> (bool \<times> cube list) option" where
  "removeCell_scan [] = Some (False, [])"
| "removeCell_scan (c # cs) =
     (case cube_detach c of
        None \<Rightarrow> None
      | Some (True, c') \<Rightarrow> Some (True, c' # cs)
      | Some (False, c') \<Rightarrow>
          (case removeCell_scan cs of
             None \<Rightarrow> None
           | Some (r, cs') \<Rightarrow> Some (r, c' # cs')))"

definition block_removeCell :: "block \<Rightarrow> block option" where
  "block_removeCell b =
     (case removeCell_scan (cubes b) of
        None \<Rightarrow> None
      | Some (_, cs) \<Rightarrow> Some (b\<lparr>cubes := cs\<rparr>))"

text \<open>The loop of \<^verbatim>\<open>block.trash\<close>: \<^verbatim>\<open>cube.reset(0)\<close> on every cube.\<close>

fun reset_cubes :: "cube list \<Rightarrow> cube list option" where
  "reset_cubes [] = Some []"
| "reset_cubes (c # cs) =
     (case cube_reset 0 c of
        None \<Rightarrow> None
      | Some c' \<Rightarrow>
          (case reset_cubes cs of
             None \<Rightarrow> None
           | Some cs' \<Rightarrow> Some (c' # cs')))"

definition block_trash :: "block \<Rightarrow> block option" where
  "block_trash b =
     (case reset_cubes (cubes b) of
        None \<Rightarrow> None
      | Some cs \<Rightarrow> Some (b\<lparr>slab := None, cubes := cs\<rparr>))"

definition block_merge :: "block \<Rightarrow> block option" where
  "block_merge b0 =
     (case block_trash b0 of
        None \<Rightarrow> None
      | Some b \<Rightarrow>
          (let s = SetLocation (cx b) (cy b) (cz b) AddPart;
               s = SetMaterial ''blue'' (SetMesh ''cube'' (SetRole ''flat'' s));
               scl = real_of_int (lvl b - 1) * csize b;
               s = (if (cx b > cy b \<and> cx b > cz b) \<or> (cx b < cy b \<and> cx b < cz b)
                      then SetScale (csize b) scl scl s
                    else if (cy b > cx b \<and> cy b > cz b) \<or> (cy b < cx b \<and> cy b < cz b)
                      then SetScale scl (csize b) scl s
                    else if (cz b > cx b \<and> cz b > cy b) \<or> (cz b < cx b \<and> cz b < cy b)
                      then SetScale scl scl (csize b) s
                    else s)
           in Some (b\<lparr>slab := Some s\<rparr>)))"

definition block_hooks :: "block hooks" where
  "block_hooks =
     \<lparr>trashc = block_trash, mergec = block_merge, addc = block_addCell, remc = block_removeCell\<rparr>"

definition block_attach :: "block \<Rightarrow> (bool \<times> block) option" where
  "block_attach = attach block_hooks"

definition block_detach :: "block \<Rightarrow> (bool \<times> block) option" where
  "block_detach = detach block_hooks"

definition block_reset :: "int \<Rightarrow> block \<Rightarrow> block option" where
  "block_reset = reset block_hooks"

section \<open>box: what a trooper is made of\<close>

datatype box = Cube cube | Block block

fun box_attach :: "box \<Rightarrow> (bool \<times> box) option" where
  "box_attach (Cube c) = map_option (\<lambda>(r, c'). (r, Cube c')) (cube_attach c)"
| "box_attach (Block b) = map_option (\<lambda>(r, b'). (r, Block b')) (block_attach b)"

fun box_trash :: "box \<Rightarrow> box option" where
  "box_trash (Cube c) = map_option Cube (cube_trash c)"
| "box_trash (Block b) = map_option Block (block_trash b)"

text \<open>\<^verbatim>\<open>b.box().ccnt\<close> and \<^verbatim>\<open>b.box().cmax\<close>.\<close>

fun box_ccnt :: "box \<Rightarrow> int" where
  "box_ccnt (Cube c) = ccnt c"
| "box_ccnt (Block b) = ccnt b"

fun box_cmax :: "box \<Rightarrow> int" where
  "box_cmax (Cube c) = cmax c"
| "box_cmax (Block b) = cmax b"

section \<open>trooper\<close>

text \<open>The field \<^verbatim>\<open>lvl\<close> of the trooper is \<open>tr_lvl\<close> here: \<open>lvl\<close> is the panel's.\<close>

record trooper =
  tr_lvl :: int
  neo :: "part option"
  bits :: "box list"
  center :: "part option"
  mid :: int

definition addCenter :: "trooper \<Rightarrow> trooper" where
  "addCenter tr =
     (if tr_lvl tr > 0 then
        (let cubeSize = 1 / real_of_int (tr_lvl tr + 1);
             scl = real_of_int (tr_lvl tr - 1) * cubeSize * 0.9
         in tr\<lparr>center :=
              Some (SetMaterial ''red'' (SetMesh ''cube'' (SetRole ''flat''
                      (SetScale scl scl scl AddPart))))\<rparr>)
      else tr)"

definition health :: "trooper \<Rightarrow> int" where
  "health tr = sum_list (map box_ccnt (bits tr))"

text \<open>
  The loop of \<^verbatim>\<open>trooper.attach\<close>; the flag tells whether some bit took the cell (the
  \<^verbatim>\<open>return\<close> inside the loop) or the loop ran to its end.
\<close>

fun attach_bits :: "box list \<Rightarrow> (bool \<times> box list) option" where
  "attach_bits [] = Some (False, [])"
| "attach_bits (b # bs) =
     (case box_attach b of
        None \<Rightarrow> None
      | Some (True, b') \<Rightarrow> Some (True, b' # bs)
      | Some (False, b') \<Rightarrow>
          (case attach_bits bs of
             None \<Rightarrow> None
           | Some (r, bs') \<Rightarrow> Some (r, b' # bs')))"

fun trash_bits :: "box list \<Rightarrow> box list option" where
  "trash_bits [] = Some []"
| "trash_bits (b # bs) =
     (case box_trash b of
        None \<Rightarrow> None
      | Some b' \<Rightarrow>
          (case trash_bits bs of
             None \<Rightarrow> None
           | Some bs' \<Rightarrow> Some (b' # bs')))"

definition trooper_trash :: "trooper \<Rightarrow> trooper option" where
  "trooper_trash tr =
     (case trash_bits (bits tr) of
        None \<Rightarrow> None
      | Some bs \<Rightarrow> Some (tr\<lparr>bits := bs, center := None, neo := None\<rparr>))"

definition trooper_merge :: "trooper \<Rightarrow> trooper option" where
  "trooper_merge tr =
     (case trooper_trash tr of
        None \<Rightarrow> None
      | Some t \<Rightarrow>
          Some (addCenter
                  (t\<lparr>neo := Some (SetMaterial ''blue'' (SetMesh ''cube'' (SetRole ''flat'' AddPart)))\<rparr>)))"

definition evolve :: "trooper \<Rightarrow> trooper option" where
  "evolve tr = (if neo tr = None then trooper_merge tr else Some tr)"

definition trooper_attach :: "trooper \<Rightarrow> trooper option" where
  "trooper_attach tr =
     (case attach_bits (bits tr) of
        None \<Rightarrow> None
      | Some (True, bs) \<Rightarrow> Some (tr\<lparr>bits := bs\<rparr>)
      | Some (False, bs) \<Rightarrow> evolve (tr\<lparr>bits := bs\<rparr>))"

subsection \<open>newTrooper\<close>

text \<open>\<^verbatim>\<open>tr.bits[i].(*block).addCube(...)\<close>: index and type assertion can both panic.\<close>

definition on_block :: "nat \<Rightarrow> (block \<Rightarrow> block option) \<Rightarrow> box list \<Rightarrow> box list option" where
  "on_block i f bs =
     (if i < length bs then
        (case bs ! i of
           Block b \<Rightarrow> (case f b of None \<Rightarrow> None | Some b' \<Rightarrow> Some (bs[i := Block b']))
         | Cube _ \<Rightarrow> None)
      else None)"

text \<open>
  The body of the innermost loop, at the lattice point \<open>(kx, ky, kz)\<close> (the source's
  \<^verbatim>\<open>cx, cy, cz\<close>, renamed because \<open>cx\<close>, \<open>cy\<close> and \<open>cz\<close> are fields of \<^verbatim>\<open>cbox\<close>).
\<close>

definition place ::
  "sorter \<Rightarrow> int \<Rightarrow> real \<Rightarrow> real \<Rightarrow> int \<Rightarrow> int \<Rightarrow> int \<Rightarrow> real \<Rightarrow> real \<Rightarrow> real \<Rightarrow>
   box list \<Rightarrow> box list option" where
  "place srt L cubeSize centerOffset kx ky kz mx my mz bs =
     (let x = mx * centerOffset; y = my * centerOffset; z = mz * centerOffset;
          r = (if (kx = 0 \<or> kx = L) \<and> (ky = 0 \<or> ky = L) \<and> (kz = 0 \<or> kz = L) then
                 Some (1, bs)
               else if (kx = 0 \<or> kx = L) \<and> (ky = 0 \<or> ky = L) \<or>
                       (kx = 0 \<or> kx = L) \<and> (kz = 0 \<or> kz = L) \<or>
                       (ky = 0 \<or> ky = L) \<and> (kz = 0 \<or> kz = L) then
                 Some (2, bs)
               else if kx = 0 \<or> kx = L \<or> ky = 0 \<or> ky = L \<or> kz = 0 \<or> kz = L then
                 map_option (Pair 0)
                   (if kx = L \<and> x > y \<and> x > z then on_block 0 (addCube srt x y z cubeSize) bs
                    else if kx = 0 \<and> x < y \<and> x < z then on_block 1 (addCube srt x y z cubeSize) bs
                    else if ky = L \<and> y > x \<and> y > z then on_block 2 (addCube srt x y z cubeSize) bs
                    else if ky = 0 \<and> y < x \<and> y < z then on_block 3 (addCube srt x y z cubeSize) bs
                    else if kz = L \<and> z > x \<and> z > y then on_block 4 (addCube srt x y z cubeSize) bs
                    else if kz = 0 \<and> z < x \<and> z < y then on_block 5 (addCube srt x y z cubeSize) bs
                    else Some bs)
               else Some (0, bs))
      in case r of
           None \<Rightarrow> None
         | Some (newCells, bs1) \<Rightarrow>
             if newCells > (0::int) then
               (case edgeSort srt newCells (newCube x y z cubeSize) of
                  None \<Rightarrow> None
                | Some cube \<Rightarrow> Some (bs1 @ [Cube cube]))
             else Some bs1)"

function loop_cz ::
  "sorter \<Rightarrow> int \<Rightarrow> real \<Rightarrow> real \<Rightarrow> int \<Rightarrow> int \<Rightarrow> real \<Rightarrow> real \<Rightarrow> int \<Rightarrow> real \<Rightarrow>
   box list \<Rightarrow> box list option" where
  "loop_cz srt L cubeSize centerOffset kx ky mx my kz mz bs =
     (if kz \<le> L then
        (case place srt L cubeSize centerOffset kx ky kz mx my mz bs of
           None \<Rightarrow> None
         | Some bs' \<Rightarrow> loop_cz srt L cubeSize centerOffset kx ky mx my (kz + 1) (mz + 2) bs')
      else Some bs)"
  by pat_completeness auto
termination
  by (relation "measure (\<lambda>(srt, L, cubeSize, centerOffset, kx, ky, mx, my, kz, mz, bs). nat (L + 1 - kz))")
     auto

declare loop_cz.simps [simp del]

function loop_cy ::
  "sorter \<Rightarrow> int \<Rightarrow> real \<Rightarrow> real \<Rightarrow> int \<Rightarrow> real \<Rightarrow> int \<Rightarrow> real \<Rightarrow> box list \<Rightarrow> box list option" where
  "loop_cy srt L cubeSize centerOffset kx mx ky my bs =
     (if ky \<le> L then
        (case loop_cz srt L cubeSize centerOffset kx ky mx my 0 (real_of_int (- L)) bs of
           None \<Rightarrow> None
         | Some bs' \<Rightarrow> loop_cy srt L cubeSize centerOffset kx mx (ky + 1) (my + 2) bs')
      else Some bs)"
  by pat_completeness auto
termination
  by (relation "measure (\<lambda>(srt, L, cubeSize, centerOffset, kx, mx, ky, my, bs). nat (L + 1 - ky))")
     auto

declare loop_cy.simps [simp del]

function loop_cx ::
  "sorter \<Rightarrow> int \<Rightarrow> real \<Rightarrow> real \<Rightarrow> int \<Rightarrow> real \<Rightarrow> box list \<Rightarrow> box list option" where
  "loop_cx srt L cubeSize centerOffset kx mx bs =
     (if kx \<le> L then
        (case loop_cy srt L cubeSize centerOffset kx mx 0 (real_of_int (- L)) bs of
           None \<Rightarrow> None
         | Some bs' \<Rightarrow> loop_cx srt L cubeSize centerOffset (kx + 1) (mx + 2) bs')
      else Some bs)"
  by pat_completeness auto
termination
  by (relation "measure (\<lambda>(srt, L, cubeSize, centerOffset, kx, mx, bs). nat (L + 1 - kx))") auto

declare loop_cx.simps [simp del]

definition newTrooper :: "sorter \<Rightarrow> int \<Rightarrow> trooper option" where
  "newTrooper srt level =
     (let tr = \<lparr>tr_lvl = level, neo = None, bits = [], center = None,
                mid = level * level * level * 8 - (level - 1) * (level - 1) * (level - 1) * 8\<rparr>
      in if tr_lvl tr = 0 then
           (case edgeSort srt 1 (newCube 0 0 0 1) of
              None \<Rightarrow> None
            | Some cube \<Rightarrow> Some (tr\<lparr>bits := bits tr @ [Cube cube]\<rparr>))
         else
           (let cubeSize = 1 / real_of_int (tr_lvl tr + 1);
                centerOffset = cubeSize * 0.5;
                panelCenter = real_of_int (tr_lvl tr) * centerOffset;
                bs = bits tr @
                  [Block (newBlock panelCenter 0 0 (tr_lvl tr)),
                   Block (newBlock (- panelCenter) 0 0 (tr_lvl tr)),
                   Block (newBlock 0 panelCenter 0 (tr_lvl tr)),
                   Block (newBlock 0 (- panelCenter) 0 (tr_lvl tr)),
                   Block (newBlock 0 0 panelCenter (tr_lvl tr)),
                   Block (newBlock 0 0 (- panelCenter) (tr_lvl tr))]
            in case loop_cx srt (tr_lvl tr) cubeSize centerOffset 0 (real_of_int (- tr_lvl tr)) bs of
                 None \<Rightarrow> None
               | Some bs' \<Rightarrow> Some (addCenter (tr\<lparr>bits := bs'\<rparr>))))"

section \<open>Invariants and observers used by the theorems\<close>

text \<open>
  Nothing from here on is a translation of the source: these are the predicates and
  observers in which the theorems are stated, and the closed forms their proofs use.
\<close>

subsection \<open>Counted boxes\<close>

text \<open>Hooks that leave the two counters alone, as the hooks of cubes and panels do.\<close>

definition hooks_keep :: "'a cbox_scheme hooks \<Rightarrow> bool" where
  "hooks_keep h =
     (\<forall>s s'. (trashc h s = Some s' \<or> mergec h s = Some s' \<or> addc h s = Some s' \<or> remc h s = Some s')
        \<longrightarrow> ccnt s' = ccnt s \<and> cmax s' = cmax s)"

text \<open>
  The parts a cube owns when it holds \<open>n\<close> cells: the merged cell when full, otherwise
  the discrete cells at its first \<open>n\<close> centres. A cube is well formed (\<open>cube_inv\<close>) when it
  has capacity 8, eight centres, a count from 0 to 8, and owns exactly those parts.
\<close>

definition canon_cells :: "cube \<Rightarrow> nat \<Rightarrow> part list" where
  "canon_cells c n =
     (if int n = cmax c then [merged_cell c] else map (sub_cell c) (take n (centers c)))"

definition cube_inv :: "cube \<Rightarrow> bool" where
  "cube_inv c =
     (cmax c = 8 \<and> length (centers c) = 8 \<and> 0 \<le> ccnt c \<and> ccnt c \<le> 8 \<and>
      cells c = canon_cells c (nat (ccnt c)))"

text \<open>\<^verbatim>\<open>attach\<close> called \<open>n\<close> times in a row, results ignored: what the loop of \<^verbatim>\<open>reset\<close> does.\<close>

fun attach_times :: "'a cbox_scheme hooks \<Rightarrow> nat \<Rightarrow> 'a cbox_scheme \<Rightarrow> 'a cbox_scheme option" where
  "attach_times h 0 c = Some c"
| "attach_times h (Suc n) c =
     (case attach h c of None \<Rightarrow> None | Some (_, c') \<Rightarrow> attach_times h n c')"

text \<open>A panel with at least one cube, all cubes well formed.\<close>

definition block_wf :: "block \<Rightarrow> bool" where
  "block_wf b = (cubes b \<noteq> [] \<and> list_all cube_inv (cubes b))"

text \<open>Sequences of the three operations of a counted box.\<close>

datatype op = Attach | Detach | Reset int

fun apply_op :: "'a cbox_scheme hooks \<Rightarrow> op \<Rightarrow> 'a cbox_scheme \<Rightarrow> 'a cbox_scheme option" where
  "apply_op h Attach c = map_option snd (attach h c)"
| "apply_op h Detach c = map_option snd (detach h c)"
| "apply_op h (Reset k) c = reset h k c"

fun run_ops :: "'a cbox_scheme hooks \<Rightarrow> op list \<Rightarrow> 'a cbox_scheme \<Rightarrow> 'a cbox_scheme option" where
  "run_ops h [] c = Some c"
| "run_ops h (x # xs) c = (case apply_op h x c of None \<Rightarrow> None | Some c' \<Rightarrow> run_ops h xs c')"

subsection \<open>Sorting\<close>

text \<open>
  What is assumed of \<^verbatim>\<open>sort.Sort\<close>: it permutes the list. An insertion sort is the sorter
  at which the witnesses and counterexamples are evaluated.
\<close>

definition sorter_ok :: "sorter \<Rightarrow> bool" where
  "sorter_ok srt = (\<forall>lt xs. mset (srt lt xs) = mset xs)"

fun insert_sorted :: "('a \<Rightarrow> 'a \<Rightarrow> bool) \<Rightarrow> 'a \<Rightarrow> 'a list \<Rightarrow> 'a list" where
  "insert_sorted lt x [] = [x]"
| "insert_sorted lt x (y # ys) =
     (if lt y x then y # insert_sorted lt x ys else x # y # ys)"

fun insertion_sort :: "('a \<Rightarrow> 'a \<Rightarrow> bool) \<Rightarrow> 'a list \<Rightarrow> 'a list" where
  "insertion_sort lt [] = []"
| "insertion_sort lt (x # xs) = insert_sorted lt x (insertion_sort lt xs)"

text \<open>
  A new cube with its centres sorted, and a cube put at \<open>n\<close> cells with the parts that go
  with them: the states \<^verbatim>\<open>edgeSort\<close> and \<^verbatim>\<open>panelSort\<close> produce.
\<close>

definition sorted_cube :: "sorter \<Rightarrow> (V3 \<Rightarrow> V3 \<Rightarrow> bool) \<Rightarrow> real \<Rightarrow> real \<Rightarrow> real \<Rightarrow> real \<Rightarrow> cube" where
  "sorted_cube srt lt x y z s =
     (newCube x y z s)\<lparr>centers := srt lt (centers (newCube x y z s))\<rparr>"

definition seeded :: "cube \<Rightarrow> int \<Rightarrow> cube" where
  "seeded c n = c\<lparr>ccnt := n, cells := canon_cells c (nat n)\<rparr>"

subsection \<open>Troopers\<close>

text \<open>Every part a trooper owns: \<^verbatim>\<open>neo\<close>, \<^verbatim>\<open>center\<close>, slabs and cells.\<close>

fun box_parts :: "box \<Rightarrow> part list" where
  "box_parts (Cube c) = cells c"
| "box_parts (Block b) = (case slab b of None \<Rightarrow> [] | Some p \<Rightarrow> [p]) @ concat (map cells (cubes b))"

definition owned_parts :: "trooper \<Rightarrow> part list" where
  "owned_parts tr =
     (case neo tr of None \<Rightarrow> [] | Some p \<Rightarrow> [p]) @
     (case center tr of None \<Rightarrow> [] | Some p \<Rightarrow> [p]) @
     concat (map box_parts (bits tr))"

text \<open>
  Whether a call of \<^verbatim>\<open>trooper.attach\<close> in this state runs past its loop to \<^verbatim>\<open>tr.evolve()\<close>,
  and \<open>n\<close> calls of \<^verbatim>\<open>trooper.attach\<close> in a row, counting those that do.
\<close>

definition reaches_evolve :: "trooper \<Rightarrow> bool" where
  "reaches_evolve tr = (case attach_bits (bits tr) of Some (False, _) \<Rightarrow> True | _ \<Rightarrow> False)"

fun grow :: "nat \<Rightarrow> trooper \<Rightarrow> (nat \<times> trooper) option" where
  "grow 0 tr = Some (0, tr)"
| "grow (Suc n) tr =
     (case trooper_attach tr of
        None \<Rightarrow> None
      | Some tr' \<Rightarrow>
          (case grow n tr' of
             None \<Rightarrow> None
           | Some (k, tr'') \<Rightarrow> Some ((if reaches_evolve tr then 1 else 0) + k, tr'')))"

text \<open>
  The level 0 trooper whose cube holds \<open>n\<close> cells, the part \<^verbatim>\<open>merge\<close> makes for \<^verbatim>\<open>neo\<close>, and
  the level 0 trooper after \<^verbatim>\<open>evolve\<close>.
\<close>

definition trooper0 :: "sorter \<Rightarrow> int \<Rightarrow> trooper" where
  "trooper0 srt n =
     \<lparr>tr_lvl = 0, neo = None, bits = [Cube (seeded (sorted_cube srt csort_Less 0 0 0 1) n)],
      center = None, mid = 8\<rparr>"

definition neo_part :: part where
  "neo_part = SetMaterial ''blue'' (SetMesh ''cube'' (SetRole ''flat'' AddPart))"

definition trooper0_evolved :: "sorter \<Rightarrow> trooper" where
  "trooper0_evolved srt =
     \<lparr>tr_lvl = 0, neo = Some neo_part,
      bits = [Cube ((seeded (sorted_cube srt csort_Less 0 0 0 1) 8)\<lparr>cells := []\<rparr>)],
      center = None, mid = 8\<rparr>"

subsection \<open>The construction loops\<close>










text \<open>
  Observers for one panel of a trooper: the panel at a position of \<^verbatim>\<open>bits\<close>, the number
  of cells each of its cubes owns, one \<^verbatim>\<open>attach\<close>, and \<^verbatim>\<open>attach\<close> followed by \<^verbatim>\<open>detach\<close>.
\<close>

definition panel_at :: "nat \<Rightarrow> trooper \<Rightarrow> block option" where
  "panel_at i tr = (if i < length (bits tr) then (case bits tr ! i of Block b \<Rightarrow> Some b | Cube c \<Rightarrow> None) else None)"

definition cube_parts :: "block \<Rightarrow> nat list" where
  "cube_parts b = map (\<lambda>c. length (cells c)) (cubes b)"

definition attach_only :: "block \<Rightarrow> block option" where
  "attach_only b = map_option snd (block_attach b)"

definition attach_then_detach :: "block \<Rightarrow> block option" where
  "attach_then_detach b =
     (case block_attach b of
        None \<Rightarrow> None
      | Some (_, b1) \<Rightarrow> map_option snd (block_detach b1))"

section \<open>Lemmas on the counted box and the cube\<close>

lemma hooks_keepD:
  assumes "hooks_keep h"
  shows "trashc h s = Some s' \<Longrightarrow> ccnt s' = ccnt s \<and> cmax s' = cmax s"
    and "mergec h s = Some s' \<Longrightarrow> ccnt s' = ccnt s \<and> cmax s' = cmax s"
    and "addc h s = Some s' \<Longrightarrow> ccnt s' = ccnt s \<and> cmax s' = cmax s"
    and "remc h s = Some s' \<Longrightarrow> ccnt s' = ccnt s \<and> cmax s' = cmax s"
  using assms unfolding hooks_keep_def by blast+

lemma attach_full: "\<not> (0 \<le> ccnt c \<and> ccnt c < cmax c) \<Longrightarrow> attach h c = Some (False, c)"
  by (auto simp: attach_def)

lemma attach_room:
  "0 \<le> ccnt c \<Longrightarrow> ccnt c < cmax c \<Longrightarrow>
   attach h c = map_option (Pair True)
     ((if ccnt c + 1 = cmax c then mergec h else addc h) (c\<lparr>ccnt := ccnt c + 1\<rparr>))"
  by (simp add: attach_def Let_def)

lemma attach_counts:
  assumes "hooks_keep h" "attach h c = Some (r, c')"
  shows "cmax c' = cmax c \<and> ccnt c' = (if 0 \<le> ccnt c \<and> ccnt c < cmax c then ccnt c + 1 else ccnt c)
         \<and> r = (0 \<le> ccnt c \<and> ccnt c < cmax c)"
proof (cases "0 \<le> ccnt c \<and> ccnt c < cmax c")
  case True
  then have "attach h c = map_option (Pair True)
     ((if ccnt c + 1 = cmax c then mergec h else addc h) (c\<lparr>ccnt := ccnt c + 1\<rparr>))"
    by (simp add: attach_room)
  with assms(2) obtain s where s: "(if ccnt c + 1 = cmax c then mergec h else addc h) (c\<lparr>ccnt := ccnt c + 1\<rparr>) = Some s"
    and r: "r = True" "c' = s" by (auto)
  from s have "ccnt s = ccnt c + 1 \<and> cmax s = cmax c"
    using hooks_keepD(2,3)[OF assms(1), of "c\<lparr>ccnt := ccnt c + 1\<rparr>" s] by (auto split: if_splits)
  with True r show ?thesis by simp
next
  case False
  with assms(2) show ?thesis by (auto simp: attach_full)
qed

subsection \<open>cube\<close>

lemma newCube_sel [simp]:
  "ccnt (newCube x y z s) = 0" "cmax (newCube x y z s) = 8"
  "cx (newCube x y z s) = x" "cy (newCube x y z s) = y" "cz (newCube x y z s) = z"
  "csize (newCube x y z s) = s" "cells (newCube x y z s) = []"
  "length (centers (newCube x y z s)) = 8"
  by (simp_all add: newCube_def Let_def)

lemma cube_trash_eq: "cube_trash c = Some (c\<lparr>cells := []\<rparr>)"
proof (induction "length (cells c)" arbitrary: c)
  case 0
  then show ?case by (simp add: cube_trash.simps)
next
  case (Suc n)
  let ?c' = "c\<lparr>cells := take (length (cells c) - 1) (cells c)\<rparr>"
  from Suc(2) have ne: "cells c \<noteq> []" by auto
  then have rc: "cube_removeCell c = Some ?c'"
    by (simp add: cube_removeCell_def Let_def)
  from Suc(2) have "n = length (cells ?c')" by simp
  from Suc(1)[OF this] have "cube_trash ?c' = Some (c\<lparr>cells := []\<rparr>)" by simp
  with rc ne show ?case by (subst cube_trash.simps) simp
qed

lemma cube_hooks_sel [simp]:
  "trashc cube_hooks = cube_trash" "mergec cube_hooks = cube_merge"
  "addc cube_hooks = cube_addCell" "remc cube_hooks = cube_removeCell"
  by (simp_all add: cube_hooks_def)

lemma cube_merge_eq: "cube_merge c = Some (c\<lparr>cells := [merged_cell c]\<rparr>)"
  by (simp add: cube_merge_def cube_trash_eq merged_cell_def)

lemma cube_hooks_keep: "hooks_keep cube_hooks"
  unfolding hooks_keep_def
  by (auto simp: cube_trash_eq cube_merge_eq cube_addCell_def cube_removeCell_def Let_def
           split: if_splits)

lemma sub_cell_upd [simp]:
  "sub_cell (c\<lparr>ccnt := n\<rparr>) = sub_cell c" "sub_cell (c\<lparr>cells := xs\<rparr>) = sub_cell c"
  by (simp_all add: sub_cell_def fun_eq_iff)

lemma merged_cell_upd [simp]:
  "merged_cell (c\<lparr>ccnt := n\<rparr>) = merged_cell c" "merged_cell (c\<lparr>cells := xs\<rparr>) = merged_cell c"
  by (simp_all add: merged_cell_def)

lemma canon_cells_upd [simp]:
  "canon_cells (c\<lparr>ccnt := n\<rparr>) = canon_cells c" "canon_cells (c\<lparr>cells := xs\<rparr>) = canon_cells c"
  by (simp_all add: canon_cells_def fun_eq_iff)

lemma cube_attach_eq:
  assumes "cube_inv c" "ccnt c < 8"
  shows "cube_attach c =
           Some (True, c\<lparr>ccnt := ccnt c + 1, cells := canon_cells c (nat (ccnt c + 1))\<rparr>)"
proof -
  from assms have c: "cmax c = 8" "length (centers c) = 8" "0 \<le> ccnt c"
    and cells: "cells c = map (sub_cell c) (take (nat (ccnt c)) (centers c))"
    by (auto simp: cube_inv_def canon_cells_def)
  show ?thesis
  proof (cases "ccnt c + 1 = 8")
    case True
    with c show ?thesis
      by (simp add: cube_attach_def attach_room cube_merge_eq canon_cells_def)
  next
    case False
    have "nat (ccnt c) < length (centers c)" using c assms(2) by simp
    then have "take (nat (ccnt c + 1)) (centers c) = take (nat (ccnt c)) (centers c) @ [centers c ! nat (ccnt c)]"
      using c by (simp add: nat_add_distrib take_Suc_conv_app_nth)
    with False c assms(2) cells show ?thesis
      by (simp add: cube_attach_def attach_room cube_addCell_def canon_cells_def Let_def)
  qed
qed

lemma cube_attach_full: "cube_inv c \<Longrightarrow> ccnt c = 8 \<Longrightarrow> cube_attach c = Some (False, c)"
  by (simp add: cube_attach_def attach_full cube_inv_def)

lemma cube_inv_upd:
  "cmax c = 8 \<Longrightarrow> length (centers c) = 8 \<Longrightarrow> 0 \<le> n \<Longrightarrow> n \<le> 8 \<Longrightarrow>
   cube_inv (c\<lparr>ccnt := n, cells := canon_cells c (nat n)\<rparr>)"
  by (simp add: cube_inv_def)

subsection \<open>reset\<close>

lemma reset_loop_attach_times: "reset_loop h cnt k c = attach_times h (nat (k - cnt)) c"
proof (induction h cnt k c rule: reset_loop.induct)
  case (1 h cnt cellCount c)
  show ?case
  proof (cases "cnt < cellCount")
    case True
    then have n: "nat (cellCount - cnt) = Suc (nat (cellCount - (cnt + 1)))" by simp
    show ?thesis
    proof (cases "attach h c")
      case None
      with True show ?thesis by (subst reset_loop.simps) (simp add: n)
    next
      case (Some p)
      obtain r c' where p: "p = (r, c')" by (cases p)
      from 1[OF True Some p[symmetric]] True Some p show ?thesis
        by (subst reset_loop.simps) (simp add: n)
    qed
  next
    case False
    then show ?thesis by (subst reset_loop.simps) simp
  qed
qed

lemma attach_times_counts:
  assumes "hooks_keep h"
  shows "0 \<le> ccnt c \<Longrightarrow> ccnt c \<le> cmax c \<Longrightarrow> attach_times h n c = Some c' \<Longrightarrow>
         cmax c' = cmax c \<and> ccnt c' = min (ccnt c + int n) (cmax c)"
proof (induction n arbitrary: c)
  case 0
  then show ?case by simp
next
  case (Suc n)
  from Suc.prems(3) obtain r c1 where a: "attach h c = Some (r, c1)"
    and t: "attach_times h n c1 = Some c'"
    by (auto split: option.splits)
  from attach_counts[OF assms a] have c1: "cmax c1 = cmax c"
    "ccnt c1 = (if 0 \<le> ccnt c \<and> ccnt c < cmax c then ccnt c + 1 else ccnt c)" by simp_all
  with Suc.prems have "0 \<le> ccnt c1" "ccnt c1 \<le> cmax c1" by (auto split: if_splits)
  from Suc.IH[OF this t] c1 Suc.prems(1,2) show ?case by (auto split: if_splits)
qed

lemma reset_unfold:
  "reset h k c =
     (case trashc h c of None \<Rightarrow> None
      | Some c1 \<Rightarrow> attach_times h (nat (min k (cmax c1))) (c1\<lparr>ccnt := 0\<rparr>))"
  by (auto simp: reset_def Let_def reset_loop_attach_times min_def split: option.splits)

lemma reset_counts:
  assumes "hooks_keep h" "0 \<le> cmax c" "reset h k c = Some c'"
  shows "cmax c' = cmax c \<and> ccnt c' = min (max k 0) (cmax c)"
proof -
  from assms(3) obtain c1 where t: "trashc h c = Some c1"
    and a: "attach_times h (nat (min k (cmax c1))) (c1\<lparr>ccnt := 0\<rparr>) = Some c'"
    by (auto simp: reset_unfold split: option.splits)
  from hooks_keepD(1)[OF assms(1) t] have m: "cmax c1 = cmax c" by simp
  from attach_times_counts[OF assms(1) _ _ a] m assms(2)
  show ?thesis by (auto simp: min_def max_def)
qed

lemma cube_attach_times_eq:
  "cube_inv c \<Longrightarrow>
   attach_times cube_hooks n c =
     Some (c\<lparr>ccnt := min (ccnt c + int n) 8, cells := canon_cells c (nat (min (ccnt c + int n) 8))\<rparr>)"
proof (induction n arbitrary: c)
  case 0
  then have "0 \<le> ccnt c" "ccnt c \<le> 8" "cells c = canon_cells c (nat (ccnt c))"
    by (simp_all add: cube_inv_def)
  then show ?case by simp
next
  case (Suc n)
  then have c: "cmax c = 8" "length (centers c) = 8" "0 \<le> ccnt c" "ccnt c \<le> 8"
    by (simp_all add: cube_inv_def)
  show ?case
  proof (cases "ccnt c < 8")
    case True
    let ?c1 = "c\<lparr>ccnt := ccnt c + 1, cells := canon_cells c (nat (ccnt c + 1))\<rparr>"
    have a: "attach cube_hooks c = Some (True, ?c1)"
      using cube_attach_eq[OF Suc.prems True] by (simp add: cube_attach_def)
    have "cube_inv ?c1" using c True by (intro cube_inv_upd) simp_all
    from Suc.IH[OF this] a show ?thesis by (simp add: add.assoc)
  next
    case False
    with c have e: "ccnt c = 8" by simp
    have a: "attach cube_hooks c = Some (False, c)"
      using cube_attach_full[OF Suc.prems e] by (simp add: cube_attach_def)
    from Suc.IH[OF Suc.prems] a e show ?thesis by simp
  qed
qed

lemma cube_reset_eq:
  assumes "cmax c = 8" "length (centers c) = 8"
  shows "cube_reset k c =
           Some (c\<lparr>ccnt := min (max k 0) 8, cells := canon_cells c (nat (min (max k 0) 8))\<rparr>)"
proof -
  let ?c0 = "c\<lparr>cells := [], ccnt := 0\<rparr>"
  have "cube_inv ?c0" using assms by (simp add: cube_inv_def canon_cells_def)
  from cube_attach_times_eq[OF this, of "nat (min k 8)"] assms show ?thesis
    by (simp add: cube_reset_def reset_unfold cube_trash_eq min_def max_def)
qed

lemma cube_detach_eq:
  assumes "cube_inv c" "0 < ccnt c"
  shows "cube_detach c =
           Some (True, c\<lparr>ccnt := ccnt c - 1, cells := canon_cells c (nat (ccnt c - 1))\<rparr>)"
proof -
  from assms have c: "cmax c = 8" "length (centers c) = 8" "ccnt c \<le> 8"
    and cells: "cells c = canon_cells c (nat (ccnt c))"
    by (auto simp: cube_inv_def)
  show ?thesis
  proof (cases "ccnt c = 8")
    case True
    from cube_reset_eq[OF c(1,2), of 7] True c assms(2) show ?thesis
      by (simp add: cube_detach_def detach_def cube_reset_def)
  next
    case False
    with c assms(2) have lt: "ccnt c < 8" by simp
    with cells c have cs: "cells c = map (sub_cell c) (take (nat (ccnt c)) (centers c))"
      by (simp add: canon_cells_def)
    have len: "length (cells c) = nat (ccnt c)" using c lt assms(2) by (simp add: cs)
    have "take (nat (ccnt c) - 1) (cells c) = map (sub_cell c) (take (nat (ccnt c - 1)) (centers c))"
      using assms(2) by (simp add: cs take_map nat_diff_distrib min_def)
    with len lt c assms(2) show ?thesis
      by (simp add: cube_detach_def detach_def cube_removeCell_def Let_def canon_cells_def)
  qed
qed

lemma cube_detach_empty: "ccnt c = 0 \<Longrightarrow> cube_detach c = Some (False, c)"
  by (simp add: cube_detach_def detach_def)

section \<open>Lemmas on panels\<close>

lemma cube_inv_bounds: "cube_inv c \<Longrightarrow> cmax c = 8 \<and> length (centers c) = 8 \<and> 0 \<le> ccnt c \<and> ccnt c \<le> 8"
  by (simp add: cube_inv_def)

lemma cube_attach_total:
  assumes "cube_inv c"
  shows "\<exists>r c'. cube_attach c = Some (r, c') \<and> cube_inv c'"
proof (cases "ccnt c < 8")
  case True
  from cube_inv_bounds[OF assms] True
  have "cube_inv (c\<lparr>ccnt := ccnt c + 1, cells := canon_cells c (nat (ccnt c + 1))\<rparr>)"
    by (intro cube_inv_upd) simp_all
  with cube_attach_eq[OF assms True] show ?thesis by blast
next
  case False
  with cube_inv_bounds[OF assms] have "ccnt c = 8" by simp
  from cube_attach_full[OF assms this] assms show ?thesis by blast
qed

lemma cube_detach_total:
  assumes "cube_inv c"
  shows "\<exists>r c'. cube_detach c = Some (r, c') \<and> cube_inv c'"
proof (cases "0 < ccnt c")
  case True
  from cube_inv_bounds[OF assms] True
  have "cube_inv (c\<lparr>ccnt := ccnt c - 1, cells := canon_cells c (nat (ccnt c - 1))\<rparr>)"
    by (intro cube_inv_upd) simp_all
  with cube_detach_eq[OF assms True] show ?thesis by blast
next
  case False
  with cube_inv_bounds[OF assms] have "ccnt c = 0" by simp
  from cube_detach_empty[OF this] assms show ?thesis by blast
qed

lemma cube_reset_total:
  assumes "cube_inv c"
  shows "\<exists>c'. cube_reset k c = Some c' \<and> cube_inv c' \<and> ccnt c' = min (max k 0) 8"
proof -
  from cube_inv_bounds[OF assms] have c: "cmax c = 8" "length (centers c) = 8" by simp_all
  have "cube_inv (c\<lparr>ccnt := min (max k 0) 8, cells := canon_cells c (nat (min (max k 0) 8))\<rparr>)"
    using c by (intro cube_inv_upd) simp_all
  with cube_reset_eq[OF c, of k] show ?thesis by simp
qed

lemma block_hooks_sel [simp]:
  "trashc block_hooks = block_trash" "mergec block_hooks = block_merge"
  "addc block_hooks = block_addCell" "remc block_hooks = block_removeCell"
  by (simp_all add: block_hooks_def)

lemma block_trash_keep:
  "block_trash b = Some b' \<Longrightarrow> ccnt b' = ccnt b \<and> cmax b' = cmax b \<and> slab b' = None \<and>
     cx b' = cx b \<and> cy b' = cy b \<and> cz b' = cz b \<and> csize b' = csize b \<and> lvl b' = lvl b"
  by (auto simp: block_trash_def split: option.splits)

lemma block_merge_keep:
  "block_merge b = Some b' \<Longrightarrow> ccnt b' = ccnt b \<and> cmax b' = cmax b \<and> slab b' \<noteq> None"
  by (auto simp: block_merge_def Let_def split: option.splits dest!: block_trash_keep)

lemma block_addCell_from_keep:
  "block_addCell_from a b = Some b' \<Longrightarrow> ccnt b' = ccnt b \<and> cmax b' = cmax b \<and> slab b' = slab b"
proof (induction a b rule: block_addCell_from.induct)
  case (1 addeven b)
  show ?case
  proof (cases "cubes b")
    case Nil
    with "1.prems" show ?thesis by (subst (asm) block_addCell_from.simps) simp
  next
    case (Cons c0 cs)
    show ?thesis
    proof (cases "addeven < cmax c0")
      case False
      with Cons "1.prems" show ?thesis by (subst (asm) block_addCell_from.simps) simp
    next
      case True
      show ?thesis
      proof (cases "addCell_scan addeven (cubes b)")
        case None
        with Cons True "1.prems" show ?thesis by (subst (asm) block_addCell_from.simps) simp
      next
        case (Some p)
        obtain r cs' where p: "p = (r, cs')" by (cases p)
        show ?thesis
        proof (cases r)
          case True
          with Cons \<open>addeven < cmax c0\<close> Some p "1.prems" show ?thesis
            by (subst (asm) block_addCell_from.simps) auto
        next
          case False
          with Cons \<open>addeven < cmax c0\<close> Some p "1.prems"
          have "block_addCell_from (addeven + 1) b = Some b'"
            by (subst (asm) block_addCell_from.simps) simp
          moreover from False have "r = False" by simp
          ultimately show ?thesis
            using "1.IH"[OF Cons \<open>addeven < cmax c0\<close> Some p[symmetric]] by blast
        qed
      qed
    qed
  qed
qed

lemma block_removeCell_keep:
  "block_removeCell b = Some b' \<Longrightarrow> ccnt b' = ccnt b \<and> cmax b' = cmax b \<and> slab b' = slab b"
  by (auto simp: block_removeCell_def split: option.splits)

lemma block_hooks_keep: "hooks_keep block_hooks"
  unfolding hooks_keep_def
  by (auto simp: block_addCell_def dest: block_trash_keep block_merge_keep block_addCell_from_keep
        block_removeCell_keep)

lemma canon_cells_0 [simp]: "canon_cells c 0 = (if cmax c = 0 then [merged_cell c] else [])"
  by (simp add: canon_cells_def)

lemma reset_cubes_eq:
  "list_all cube_inv cs \<Longrightarrow> reset_cubes cs = Some (map (\<lambda>c. c\<lparr>ccnt := 0, cells := []\<rparr>) cs)"
proof (induction cs)
  case Nil
  then show ?case by simp
next
  case (Cons c cs)
  then have c: "cmax c = 8" "length (centers c) = 8" by (simp_all add: cube_inv_def)
  from cube_reset_eq[OF c, of 0] c Cons show ?case by simp
qed

lemma cube_inv_emptied: "cube_inv c \<Longrightarrow> cube_inv (c\<lparr>ccnt := 0, cells := []\<rparr>)"
  by (simp add: cube_inv_def)

lemma block_trash_eq:
  "block_wf b \<Longrightarrow>
   block_trash b = Some (b\<lparr>slab := None, cubes := map (\<lambda>c. c\<lparr>ccnt := 0, cells := []\<rparr>) (cubes b)\<rparr>)"
  by (simp add: block_trash_def block_wf_def reset_cubes_eq)

lemma block_wf_trashed:
  "block_wf b \<Longrightarrow>
   block_wf (b\<lparr>slab := None, cubes := map (\<lambda>c. c\<lparr>ccnt := 0, cells := []\<rparr>) (cubes b)\<rparr>)"
  by (auto simp: block_wf_def list_all_iff cube_inv_emptied)

lemma addCell_scan_total:
  "list_all cube_inv cs \<Longrightarrow>
   \<exists>r cs'. addCell_scan a cs = Some (r, cs') \<and> list_all cube_inv cs' \<and> length cs' = length cs"
proof (induction cs)
  case Nil
  then show ?case by auto
next
  case (Cons c cs)
  then have c: "cube_inv c" and cs: "list_all cube_inv cs" by simp_all
  show ?case
  proof (cases "ccnt c \<le> a")
    case True
    from cube_attach_total[OF c] obtain r c' where "cube_attach c = Some (r, c')" "cube_inv c'"
      by blast
    with True cs show ?thesis by auto
  next
    case False
    from Cons.IH[OF cs] obtain r cs' where "addCell_scan a cs = Some (r, cs')"
      "list_all cube_inv cs'" "length cs' = length cs" by blast
    with False c show ?thesis by auto
  qed
qed

lemma block_addCell_from_total:
  "block_wf b \<Longrightarrow> \<exists>b'. block_addCell_from a b = Some b' \<and> block_wf b'"
proof (induction a b rule: block_addCell_from.induct)
  case (1 addeven b)
  from "1.prems" obtain c0 cs where Cons: "cubes b = c0 # cs" and ci: "list_all cube_inv (cubes b)"
    by (cases "cubes b") (auto simp: block_wf_def)
  show ?case
  proof (cases "addeven < cmax c0")
    case False
    with Cons "1.prems" show ?thesis by (subst block_addCell_from.simps) simp
  next
    case True
    from addCell_scan_total[OF ci, of addeven] obtain r cs'
      where sc: "addCell_scan addeven (cubes b) = Some (r, cs')"
        and cs': "list_all cube_inv cs'" "length cs' = length (cubes b)" by blast
    show ?thesis
    proof (cases r)
      case True
      from cs' Cons have "block_wf (b\<lparr>cubes := cs'\<rparr>)" by (auto simp: block_wf_def)
      with True Cons \<open>addeven < cmax c0\<close> sc show ?thesis
        by (subst block_addCell_from.simps) simp
    next
      case False
      then have rf: "r = False" by simp
      from "1.IH"[OF Cons \<open>addeven < cmax c0\<close> sc refl rf "1.prems"]
      show ?thesis using False Cons \<open>addeven < cmax c0\<close> sc
        by (subst block_addCell_from.simps) simp
    qed
  qed
qed

lemma removeCell_scan_total:
  "list_all cube_inv cs \<Longrightarrow>
   \<exists>r cs'. removeCell_scan cs = Some (r, cs') \<and> list_all cube_inv cs' \<and> length cs' = length cs"
proof (induction cs)
  case Nil
  then show ?case by auto
next
  case (Cons c cs)
  then have c: "cube_inv c" and cs: "list_all cube_inv cs" by simp_all
  from cube_detach_total[OF c] obtain r c' where d: "cube_detach c = Some (r, c')" "cube_inv c'"
    by blast
  show ?case
  proof (cases r)
    case True
    with d cs show ?thesis by auto
  next
    case False
    from Cons.IH[OF cs] obtain r' cs' where "removeCell_scan cs = Some (r', cs')"
      "list_all cube_inv cs'" "length cs' = length cs" by blast
    with False d show ?thesis by auto
  qed
qed

lemma block_removeCell_total:
  assumes "block_wf b"
  shows "\<exists>b'. block_removeCell b = Some b' \<and> block_wf b'"
proof -
  from assms have ci: "list_all cube_inv (cubes b)" and ne: "cubes b \<noteq> []"
    by (simp_all add: block_wf_def)
  from removeCell_scan_total[OF ci] obtain r cs' where "removeCell_scan (cubes b) = Some (r, cs')"
    "list_all cube_inv cs'" "length cs' = length (cubes b)" by blast
  with ne show ?thesis by (auto simp: block_removeCell_def block_wf_def)
qed

lemma block_merge_total:
  assumes "block_wf b"
  shows "\<exists>b'. block_merge b = Some b' \<and> block_wf b'"
proof -
  note t = block_trash_eq[OF assms] and w = block_wf_trashed[OF assms]
  from w show ?thesis
    by (simp add: block_merge_def t Let_def block_wf_def)
qed

lemma block_attach_total:
  assumes "block_wf b"
  shows "\<exists>r b'. block_attach b = Some (r, b') \<and> block_wf b'"
proof (cases "0 \<le> ccnt b \<and> ccnt b < cmax b")
  case True
  let ?b1 = "b\<lparr>ccnt := ccnt b + 1\<rparr>"
  from assms have w: "block_wf ?b1" by (simp add: block_wf_def)
  from block_merge_total[OF w] block_addCell_from_total[OF w, of 0] True show ?thesis
    by (auto simp: block_attach_def attach_room block_addCell_def)
next
  case False
  with assms show ?thesis by (auto simp: block_attach_def attach_full)
qed

lemma block_attach_times_total:
  "block_wf b \<Longrightarrow> \<exists>b'. attach_times block_hooks n b = Some b' \<and> block_wf b'"
proof (induction n arbitrary: b)
  case 0
  then show ?case by simp
next
  case (Suc n)
  from block_attach_total[OF Suc.prems] obtain r b1 where "attach block_hooks b = Some (r, b1)"
    "block_wf b1" by (auto simp: block_attach_def)
  with Suc.IH[of b1] show ?case by simp
qed

lemma block_reset_total:
  assumes "block_wf b"
  shows "\<exists>b'. block_reset k b = Some b' \<and> block_wf b'"
proof -
  let ?b0 = "b\<lparr>slab := None, cubes := map (\<lambda>c. c\<lparr>ccnt := 0, cells := []\<rparr>) (cubes b), ccnt := 0\<rparr>"
  from block_wf_trashed[OF assms] have "block_wf ?b0" by (simp add: block_wf_def)
  from block_attach_times_total[OF this] show ?thesis
    by (simp add: block_reset_def reset_unfold block_trash_eq[OF assms])
qed

lemma block_detach_total:
  assumes "block_wf b"
  shows "\<exists>r b'. block_detach b = Some (r, b') \<and> block_wf b'"
proof -
  from block_reset_total[OF assms, of "cmax b - 1"] obtain b1
    where r: "reset block_hooks (cmax b - 1) b = Some b1" "block_wf b1"
    by (auto simp: block_reset_def)
  from block_removeCell_total[OF assms] obtain b2
    where m: "block_removeCell b = Some b2" "block_wf b2" by blast
  then have "block_wf (b2\<lparr>ccnt := ccnt b2 - 1\<rparr>)" by (simp add: block_wf_def)
  with r m assms show ?thesis by (auto simp: block_detach_def detach_def)
qed

lemma block_rebuild:
  "block_wf b \<Longrightarrow> 0 \<le> ccnt b \<Longrightarrow> ccnt b + int n < cmax b \<Longrightarrow>
   \<exists>b'. attach_times block_hooks n b = Some b' \<and> block_wf b' \<and> slab b' = slab b \<and>
        ccnt b' = ccnt b + int n \<and> cmax b' = cmax b"
proof (induction n arbitrary: b)
  case 0
  then show ?case by simp
next
  case (Suc n)
  let ?b1 = "b\<lparr>ccnt := ccnt b + 1\<rparr>"
  from Suc.prems have w: "block_wf ?b1" by (simp add: block_wf_def)
  from block_addCell_from_total[OF w, of 0] obtain b2
    where a: "block_addCell_from 0 ?b1 = Some b2" and w2: "block_wf b2" by blast
  from block_addCell_from_keep[OF a] have k: "ccnt b2 = ccnt b + 1" "cmax b2 = cmax b" "slab b2 = slab b"
    by simp_all
  from Suc.prems a have at: "attach block_hooks b = Some (True, b2)"
    by (simp add: attach_room block_addCell_def)
  from Suc.prems k have "0 \<le> ccnt b2" "ccnt b2 + int n < cmax b2" by simp_all
  from Suc.IH[OF w2 this] k at show ?case by auto
qed

lemma block_detach_full:
  assumes "block_wf b" "0 < cmax b" "ccnt b = cmax b"
  shows "\<exists>b'. block_detach b = Some (True, b') \<and> ccnt b' = cmax b - 1 \<and> slab b' = None \<and> block_wf b'"
proof -
  let ?b0 = "b\<lparr>slab := None, cubes := map (\<lambda>c. c\<lparr>ccnt := 0, cells := []\<rparr>) (cubes b), ccnt := 0\<rparr>"
  from block_wf_trashed[OF assms(1)] have w: "block_wf ?b0" by (simp add: block_wf_def)
  have "0 \<le> ccnt ?b0" "ccnt ?b0 + int (nat (cmax b - 1)) < cmax ?b0" using assms(2) by simp_all
  from block_rebuild[OF w this] obtain b'
    where "attach_times block_hooks (nat (cmax b - 1)) ?b0 = Some b'" "block_wf b'"
      "slab b' = None" "ccnt b' = cmax b - 1"
    using assms(2) by auto
  with assms show ?thesis
    by (simp add: block_detach_def detach_def reset_unfold block_trash_eq[OF assms(1)])
qed

lemma detach_empty: "\<not> (0 < ccnt c \<and> ccnt c \<le> cmax c) \<Longrightarrow> detach h c = Some (False, c)"
  by (auto simp: detach_def)

lemma detach_counts:
  assumes "hooks_keep h" "0 \<le> ccnt c" "ccnt c \<le> cmax c" "detach h c = Some (r, c')"
  shows "cmax c' = cmax c \<and> ccnt c' = (if 0 < ccnt c then ccnt c - 1 else ccnt c) \<and> r = (0 < ccnt c)"
proof (cases "0 < ccnt c")
  case False
  with assms(4) show ?thesis by (auto simp: detach_empty)
next
  case True
  show ?thesis
  proof (cases "ccnt c = cmax c")
    case full: True
    with True assms(3,4) obtain r: "r" and "reset h (cmax c - 1) c = Some c'"
      by (auto simp: detach_def)
    from reset_counts[OF assms(1) _ this(2)] True full r show ?thesis by auto
  next
    case False
    with True assms(3,4) obtain c1 where "remc h c = Some c1" "c' = c1\<lparr>ccnt := ccnt c1 - 1\<rparr>" "r"
      by (auto simp: detach_def split: option.splits)
    with hooks_keepD(4)[OF assms(1) this(1)] True show ?thesis by simp
  qed
qed

section \<open>Sequences of operations\<close>

lemma apply_op_counts:
  assumes "hooks_keep h" "0 \<le> ccnt c" "ccnt c \<le> cmax c" "apply_op h x c = Some c'"
  shows "0 \<le> ccnt c' \<and> ccnt c' \<le> cmax c' \<and> cmax c' = cmax c"
proof (cases x)
  case Attach
  with assms(4) obtain r where "attach h c = Some (r, c')" by auto
  from attach_counts[OF assms(1) this] assms(2,3) show ?thesis by (auto split: if_splits)
next
  case Detach
  with assms(4) obtain r where "detach h c = Some (r, c')" by auto
  from detach_counts[OF assms(1,2,3) this] assms(2,3) show ?thesis by (auto split: if_splits)
next
  case (Reset k)
  with assms(4) have "reset h k c = Some c'" by simp
  from reset_counts[OF assms(1) _ this] assms(2,3) show ?thesis by auto
qed

lemma run_ops_counts:
  assumes "hooks_keep h"
  shows "0 \<le> ccnt c \<Longrightarrow> ccnt c \<le> cmax c \<Longrightarrow> run_ops h ops c = Some c' \<Longrightarrow>
         0 \<le> ccnt c' \<and> ccnt c' \<le> cmax c' \<and> cmax c' = cmax c"
proof (induction ops arbitrary: c)
  case Nil
  then show ?case by simp
next
  case (Cons x xs)
  from Cons.prems(3) obtain c1 where a: "apply_op h x c = Some c1" and r: "run_ops h xs c1 = Some c'"
    by (auto split: option.splits)
  from apply_op_counts[OF assms Cons.prems(1,2) a]
  have c1: "0 \<le> ccnt c1" "ccnt c1 \<le> cmax c1" "cmax c1 = cmax c" by simp_all
  from Cons.IH[OF c1(1,2) r] c1(3) show ?case by simp
qed

lemma cube_inv_newCube: "cube_inv (newCube x y z s)"
  by (simp add: cube_inv_def)

lemma cube_apply_op_total:
  assumes "cube_inv c"
  shows "\<exists>c'. apply_op cube_hooks x c = Some c' \<and> cube_inv c'"
proof (cases x)
  case Attach
  with cube_attach_total[OF assms] show ?thesis by (auto simp: cube_attach_def)
next
  case Detach
  with cube_detach_total[OF assms] show ?thesis by (auto simp: cube_detach_def)
next
  case (Reset k)
  with cube_reset_total[OF assms, of k] show ?thesis by (auto simp: cube_reset_def)
qed

lemma cube_run_ops_total:
  "cube_inv c \<Longrightarrow> \<exists>c'. run_ops cube_hooks ops c = Some c' \<and> cube_inv c'"
proof (induction ops arbitrary: c)
  case Nil
  then show ?case by simp
next
  case (Cons x xs)
  from cube_apply_op_total[OF Cons.prems, of x] obtain c1
    where "apply_op cube_hooks x c = Some c1" "cube_inv c1" by blast
  with Cons.IH[of c1] show ?case by simp
qed

lemma block_apply_op_total:
  assumes "block_wf b"
  shows "\<exists>b'. apply_op block_hooks x b = Some b' \<and> block_wf b'"
proof (cases x)
  case Attach
  with block_attach_total[OF assms] show ?thesis by (auto simp: block_attach_def)
next
  case Detach
  with block_detach_total[OF assms] show ?thesis by (auto simp: block_detach_def)
next
  case (Reset k)
  with block_reset_total[OF assms, of k] show ?thesis by (auto simp: block_reset_def)
qed

lemma block_run_ops_total:
  "block_wf b \<Longrightarrow> \<exists>b'. run_ops block_hooks ops b = Some b' \<and> block_wf b'"
proof (induction ops arbitrary: b)
  case Nil
  then show ?case by simp
next
  case (Cons x xs)
  from block_apply_op_total[OF Cons.prems, of x] obtain b1
    where "apply_op block_hooks x b = Some b1" "block_wf b1" by blast
  with Cons.IH[of b1] show ?case by simp
qed

lemma newBlock_sel [simp]:
  "ccnt (newBlock x y z l) = 0" "cmax (newBlock x y z l) = (l - 1) * (l - 1) * 8"
  "cx (newBlock x y z l) = x" "cy (newBlock x y z l) = y" "cz (newBlock x y z l) = z"
  "csize (newBlock x y z l) = 0" "lvl (newBlock x y z l) = l" "slab (newBlock x y z l) = None"
  "cubes (newBlock x y z l) = []"
  by (simp_all add: newBlock_def)

section \<open>Sorted and seeded cubes\<close>

lemma mset_insert_sorted: "mset (insert_sorted lt x xs) = add_mset x (mset xs)"
  by (induction xs) auto

lemma mset_insertion_sort: "mset (insertion_sort lt xs) = mset xs"
  by (induction xs) (auto simp: mset_insert_sorted)

lemma sorter_ok_insertion_sort: "sorter_ok insertion_sort"
  by (simp add: sorter_ok_def mset_insertion_sort)

lemma sorter_ok_length: "sorter_ok srt \<Longrightarrow> length (srt lt xs) = length xs"
  unfolding sorter_ok_def by (metis size_mset)

lemma sorted_cube_sel [simp]:
  "ccnt (sorted_cube srt lt x y z s) = 0" "cmax (sorted_cube srt lt x y z s) = 8"
  "cx (sorted_cube srt lt x y z s) = x" "cy (sorted_cube srt lt x y z s) = y"
  "cz (sorted_cube srt lt x y z s) = z" "csize (sorted_cube srt lt x y z s) = s"
  "cells (sorted_cube srt lt x y z s) = []"
  by (simp_all add: sorted_cube_def)

lemma sorted_cube_centers [simp]:
  "sorter_ok srt \<Longrightarrow> length (centers (sorted_cube srt lt x y z s)) = 8"
  by (simp add: sorted_cube_def sorter_ok_length)

lemma seeded_sel [simp]:
  "ccnt (seeded c n) = n" "cmax (seeded c n) = cmax c" "centers (seeded c n) = centers c"
  "cx (seeded c n) = cx c" "cy (seeded c n) = cy c" "cz (seeded c n) = cz c"
  "csize (seeded c n) = csize c" "cells (seeded c n) = canon_cells c (nat n)"
  by (simp_all add: seeded_def)

lemma seeded_seeded [simp]: "seeded (seeded c m) n = seeded c n"
  by (simp add: seeded_def)

lemma canon_cells_seeded [simp]: "canon_cells (seeded c m) = canon_cells c"
  by (simp add: seeded_def)

lemma cube_inv_seeded:
  "cmax c = 8 \<Longrightarrow> length (centers c) = 8 \<Longrightarrow> 0 \<le> n \<Longrightarrow> n \<le> 8 \<Longrightarrow> cube_inv (seeded c n)"
  unfolding seeded_def by (rule cube_inv_upd)

lemma cube_inv_is_seeded: "cube_inv c \<Longrightarrow> seeded c (ccnt c) = c"
  by (simp add: cube_inv_def seeded_def)

lemma cube_attach_seeded:
  "cube_inv c \<Longrightarrow> ccnt c < 8 \<Longrightarrow> cube_attach c = Some (True, seeded c (ccnt c + 1))"
  by (simp add: cube_attach_eq seeded_def)

lemma cube_detach_seeded:
  "cube_inv c \<Longrightarrow> 0 < ccnt c \<Longrightarrow> cube_detach c = Some (True, seeded c (ccnt c - 1))"
  by (simp add: cube_detach_eq seeded_def)

lemma cube_reset_seeded:
  "cmax c = 8 \<Longrightarrow> length (centers c) = 8 \<Longrightarrow> cube_reset k c = Some (seeded c (min (max k 0) 8))"
  by (simp add: cube_reset_eq seeded_def)

lemma edgeSort_eq:
  "sorter_ok srt \<Longrightarrow>
   edgeSort srt k (newCube x y z s) = Some (seeded (sorted_cube srt csort_Less x y z s) (min (max k 0) 8))"
  using cube_reset_seeded[of "sorted_cube srt csort_Less x y z s" k]
  by (simp add: edgeSort_def sorted_cube_def[symmetric])

lemma panelSort_eq:
  "sorter_ok srt \<Longrightarrow>
   panelSort srt rx ry rz k (newCube x y z s) =
     Some (seeded (sorted_cube srt (ssort_Less rx ry rz) x y z s) (min (max k 0) 8))"
  using cube_reset_seeded[of "sorted_cube srt (ssort_Less rx ry rz) x y z s" k]
  by (simp add: panelSort_def sorted_cube_def[symmetric])

lemma cube_inv_seeded_sorted:
  "sorter_ok srt \<Longrightarrow> 0 \<le> n \<Longrightarrow> n \<le> 8 \<Longrightarrow> cube_inv (seeded (sorted_cube srt lt x y z s) n)"
  by (rule cube_inv_seeded) simp_all

text \<open>
  The order of a cube's centres is exactly what the sorter returns for the radial
  comparator (\<^verbatim>\<open>edgeSort\<close>) or the planar one (\<^verbatim>\<open>panelSort\<close>); \<^verbatim>\<open>reset\<close> does not touch it.
  Which of two centres at the same distance comes first is therefore decided inside
  \<^verbatim>\<open>sort.Sort\<close>.
\<close>

lemma edgeSort_centers:
  assumes "sorter_ok srt" "edgeSort srt k (newCube x y z s) = Some c"
  shows "centers c = srt csort_Less (centers (newCube x y z s))"
    and "mset (centers c) = mset (centers (newCube x y z s))"
proof -
  from assms show "centers c = srt csort_Less (centers (newCube x y z s))"
    by (auto simp: edgeSort_eq sorted_cube_def)
  with assms(1) show "mset (centers c) = mset (centers (newCube x y z s))"
    by (simp add: sorter_ok_def)
qed

lemma panelSort_centers:
  assumes "sorter_ok srt" "panelSort srt rx ry rz k (newCube x y z s) = Some c"
  shows "centers c = srt (ssort_Less rx ry rz) (centers (newCube x y z s))"
    and "mset (centers c) = mset (centers (newCube x y z s))"
proof -
  from assms show "centers c = srt (ssort_Less rx ry rz) (centers (newCube x y z s))"
    by (auto simp: panelSort_eq sorted_cube_def)
  with assms(1) show "mset (centers c) = mset (centers (newCube x y z s))"
    by (simp add: sorter_ok_def)
qed

section \<open>The level 0 trooper\<close>

lemma newTrooper_0: "sorter_ok srt \<Longrightarrow> newTrooper srt 0 = Some (trooper0 srt 1)"
  by (simp add: newTrooper_def edgeSort_eq trooper0_def)

lemma trooper0_attach:
  assumes "sorter_ok srt" "0 \<le> n" "n < 8"
  shows "trooper_attach (trooper0 srt n) = Some (trooper0 srt (n + 1))"
    and "\<not> reaches_evolve (trooper0 srt n)"
proof -
  let ?c = "seeded (sorted_cube srt csort_Less 0 0 0 1) n"
  have i: "cube_inv ?c" using assms by (intro cube_inv_seeded_sorted) simp_all
  from cube_attach_seeded[OF i] assms
  have a: "cube_attach ?c = Some (True, seeded (sorted_cube srt csort_Less 0 0 0 1) (n + 1))" by simp
  then show "trooper_attach (trooper0 srt n) = Some (trooper0 srt (n + 1))"
    by (simp add: trooper_attach_def trooper0_def)
  from a show "\<not> reaches_evolve (trooper0 srt n)"
    by (simp add: reaches_evolve_def trooper0_def)
qed

lemma trooper0_full:
  assumes "sorter_ok srt"
  shows "trooper_attach (trooper0 srt 8) = Some (trooper0_evolved srt)"
    and "reaches_evolve (trooper0 srt 8)"
proof -
  let ?c = "seeded (sorted_cube srt csort_Less 0 0 0 1) 8"
  have i: "cube_inv ?c" using assms by (intro cube_inv_seeded_sorted) simp_all
  from cube_attach_full[OF i] have a: "cube_attach ?c = Some (False, ?c)" by simp
  then show "trooper_attach (trooper0 srt 8) = Some (trooper0_evolved srt)"
    by (simp add: trooper_attach_def trooper0_def evolve_def trooper_merge_def trooper_trash_def
          cube_trash_eq addCenter_def trooper0_evolved_def neo_part_def)
  from a show "reaches_evolve (trooper0 srt 8)"
    by (simp add: reaches_evolve_def trooper0_def)
qed

lemma grow_trooper0:
  assumes "sorter_ok srt"
  shows "0 \<le> n \<Longrightarrow> n + int k \<le> 8 \<Longrightarrow> grow k (trooper0 srt n) = Some (0, trooper0 srt (n + int k))"
proof (induction k arbitrary: n)
  case 0
  then show ?case by simp
next
  case (Suc k)
  then have n: "0 \<le> n" "n < 8" by simp_all
  from Suc.IH[of "n + 1"] Suc.prems
  have "grow k (trooper0 srt (n + 1)) = Some (0, trooper0 srt (n + 1 + int k))" by simp
  with trooper0_attach[OF assms n] show ?case by (simp add: algebra_simps)
qed

lemma grow_add:
  "grow (k + m) tr =
     (case grow k tr of
        None \<Rightarrow> None
      | Some (a, t) \<Rightarrow>
          (case grow m t of
             None \<Rightarrow> None
           | Some (b, t') \<Rightarrow> Some (a + b, t')))"
  by (induction k arbitrary: tr) (auto split: option.splits)

lemma grow8_trooper0:
  assumes "sorter_ok srt"
  shows "grow 8 (trooper0 srt 1) = Some (1, trooper0_evolved srt)"
proof -
  have a: "grow 7 (trooper0 srt 1) = Some (0, trooper0 srt 8)"
    using grow_trooper0[OF assms, of 1 7] by simp
  have b: "grow 1 (trooper0 srt 8) = Some (1, trooper0_evolved srt)"
    using trooper0_full[OF assms] by simp
  from grow_add[of 7 1 "trooper0 srt 1"] a b show ?thesis by simp
qed

lemma health_trooper0 [simp]: "health (trooper0 srt n) = n"
  by (simp add: health_def trooper0_def)

lemma owned_trooper0_evolved: "owned_parts (trooper0_evolved srt) = [neo_part]"
  by (simp add: owned_parts_def trooper0_evolved_def)

lemma length_canon_cells:
  "cmax c = 8 \<Longrightarrow> length (centers c) = 8 \<Longrightarrow> n \<le> 8 \<Longrightarrow>
   length (canon_cells c n) = (if n = 8 then 1 else n)"
  by (auto simp: canon_cells_def)

lemma trooper0_sel [simp]:
  "bits (trooper0 srt n) = [Cube (seeded (sorted_cube srt csort_Less 0 0 0 1) n)]"
  "neo (trooper0 srt n) = None" "center (trooper0 srt n) = None" "tr_lvl (trooper0 srt n) = 0"
  by (simp_all add: trooper0_def)

lemma trooper0_evolved_sel [simp]:
  "bits (trooper0_evolved srt) = [Cube ((seeded (sorted_cube srt csort_Less 0 0 0 1) 8)\<lparr>cells := []\<rparr>)]"
  "neo (trooper0_evolved srt) = Some neo_part" "center (trooper0_evolved srt) = None"
  by (simp_all add: trooper0_evolved_def)

lemma health_trooper0_evolved [simp]: "health (trooper0_evolved srt) = 8"
  by (simp add: health_def)

section \<open>The construction loops as a fold over the lattice\<close>








section \<open>Construction of a trooper above level 0\<close>





























section \<open>A panel of a level 3 trooper\<close>

lemma cube_inv_seeded_isort [simp]:
  "0 \<le> n \<Longrightarrow> n \<le> 8 \<Longrightarrow> cube_inv (seeded (sorted_cube insertion_sort lt x y z s) n)"
  by (rule cube_inv_seeded_sorted[OF sorter_ok_insertion_sort])

lemma panel3:
  "Option.bind (newTrooper insertion_sort 3) (panel_at 0) =
     Some \<lparr>ccnt = 16, cmax = 32, cx = 3 / 8, cy = 0, cz = 0, csize = 1 / 4, lvl = 3, slab = None,
       cubes = [seeded (sorted_cube insertion_sort (ssort_Less 1 0 0) (3 / 8) (- (1 / 8)) (- (1 / 8)) (1 / 4)) 4,
                seeded (sorted_cube insertion_sort (ssort_Less 1 0 0) (3 / 8) (- (1 / 8)) (1 / 8) (1 / 4)) 4,
                seeded (sorted_cube insertion_sort (ssort_Less 1 0 0) (3 / 8) (1 / 8) (- (1 / 8)) (1 / 4)) 4,
                seeded (sorted_cube insertion_sort (ssort_Less 1 0 0) (3 / 8) (1 / 8) (1 / 8) (1 / 4)) 4]\<rparr>"
  by (simp add: newTrooper_def Let_def loop_cx.simps loop_cy.simps loop_cz.simps place_def
      edgeSort_eq panelSort_eq sorter_ok_insertion_sort addCenter_def on_block_def addCube_def
      panel_at_def newBlock_def)

lemma panel3_attached:
  "Option.bind (Option.bind (newTrooper insertion_sort 3) (panel_at 0)) attach_only =
     Some \<lparr>ccnt = 17, cmax = 32, cx = 3 / 8, cy = 0, cz = 0, csize = 1 / 4, lvl = 3, slab = None,
       cubes = [seeded (sorted_cube insertion_sort (ssort_Less 1 0 0) (3 / 8) (- (1 / 8)) (- (1 / 8)) (1 / 4)) 5,
                seeded (sorted_cube insertion_sort (ssort_Less 1 0 0) (3 / 8) (- (1 / 8)) (1 / 8) (1 / 4)) 4,
                seeded (sorted_cube insertion_sort (ssort_Less 1 0 0) (3 / 8) (1 / 8) (- (1 / 8)) (1 / 4)) 4,
                seeded (sorted_cube insertion_sort (ssort_Less 1 0 0) (3 / 8) (1 / 8) (1 / 8) (1 / 4)) 4]\<rparr>"
  unfolding panel3
  by (simp add: attach_only_def block_attach_def attach_def block_addCell_def
        block_addCell_from.simps cube_attach_seeded)

lemma panel3_roundtrip:
  "Option.bind (Option.bind (Option.bind (newTrooper insertion_sort 3) (panel_at 0)) attach_only)
     attach_then_detach =
     Some \<lparr>ccnt = 17, cmax = 32, cx = 3 / 8, cy = 0, cz = 0, csize = 1 / 4, lvl = 3, slab = None,
       cubes = [seeded (sorted_cube insertion_sort (ssort_Less 1 0 0) (3 / 8) (- (1 / 8)) (- (1 / 8)) (1 / 4)) 4,
                seeded (sorted_cube insertion_sort (ssort_Less 1 0 0) (3 / 8) (- (1 / 8)) (1 / 8) (1 / 4)) 5,
                seeded (sorted_cube insertion_sort (ssort_Less 1 0 0) (3 / 8) (1 / 8) (- (1 / 8)) (1 / 4)) 4,
                seeded (sorted_cube insertion_sort (ssort_Less 1 0 0) (3 / 8) (1 / 8) (1 / 8) (1 / 4)) 4]\<rparr>"
  unfolding panel3_attached
  by (simp add: attach_then_detach_def block_attach_def attach_def block_addCell_def
        block_detach_def detach_def block_removeCell_def
        block_addCell_from.simps cube_attach_seeded cube_detach_seeded)

section \<open>The claims\<close>

text \<open>
  C1. For a counted box with \<open>0 \<le> ccnt \<le> cmax\<close>, \<^verbatim>\<open>attach\<close> returns false exactly when
  \<open>ccnt = cmax\<close> (and then changes nothing). With room left it returns true after
  incrementing \<open>ccnt\<close> and calling the merge hook when the new count equals \<open>cmax\<close>, the
  add hook otherwise; when the hooks leave the counters alone, as those of cubes and
  panels do, the count has grown by exactly one.
\<close>

theorem C1_attach_contract:
  assumes "0 \<le> ccnt c" and "ccnt c \<le> cmax c"
  shows "((\<exists>c'. attach h c = Some (False, c')) = (ccnt c = cmax c)) \<and>
         (ccnt c = cmax c \<longrightarrow> attach h c = Some (False, c)) \<and>
         (ccnt c < cmax c \<longrightarrow>
            attach h c = map_option (Pair True)
              ((if ccnt c + 1 = cmax c then mergec h else addc h) (c\<lparr>ccnt := ccnt c + 1\<rparr>))) \<and>
         (hooks_keep h \<longrightarrow>
            (\<forall>c'. attach h c = Some (True, c') \<longrightarrow> ccnt c' = ccnt c + 1 \<and> cmax c' = cmax c)) \<and>
         hooks_keep cube_hooks \<and> hooks_keep block_hooks"
proof (intro conjI impI allI)
  show "(\<exists>c'. attach h c = Some (False, c')) = (ccnt c = cmax c)"
  proof (cases "ccnt c < cmax c")
    case True
    with assms show ?thesis by (auto simp: attach_room)
  next
    case False
    with assms show ?thesis by (auto simp: attach_full)
  qed
next
  assume "ccnt c = cmax c" then show "attach h c = Some (False, c)" by (simp add: attach_full)
next
  assume "ccnt c < cmax c"
  with assms show "attach h c = map_option (Pair True)
              ((if ccnt c + 1 = cmax c then mergec h else addc h) (c\<lparr>ccnt := ccnt c + 1\<rparr>))"
    by (simp add: attach_room)
next
  fix c' assume "hooks_keep h" "attach h c = Some (True, c')"
  from attach_counts[OF this] show "ccnt c' = ccnt c + 1" by (auto split: if_splits)
next
  fix c' assume "hooks_keep h" "attach h c = Some (True, c')"
  from attach_counts[OF this] show "cmax c' = cmax c" by (auto split: if_splits)
next
  show "hooks_keep cube_hooks" by (rule cube_hooks_keep)
next
  show "hooks_keep block_hooks" by (rule block_hooks_keep)
qed

theorem C1_attach_contract_witness:
  "0 \<le> ccnt (newCube 0 0 0 1) \<and> ccnt (newCube 0 0 0 1) < cmax (newCube 0 0 0 1) \<and>
   hooks_keep cube_hooks \<and>
   (\<exists>c'. attach cube_hooks (newCube 0 0 0 1) = Some (True, c') \<and> ccnt c' = 1)"
proof -
  let ?c = "newCube 0 0 0 1"
  have b: "0 \<le> ccnt ?c" "ccnt ?c \<le> cmax ?c" and lt: "ccnt ?c < cmax ?c"
    by simp_all
  note C = C1_attach_contract[OF b, of cube_hooks]
  from C lt have "attach cube_hooks ?c = map_option (Pair True)
      ((if ccnt ?c + 1 = cmax ?c then mergec cube_hooks else addc cube_hooks) (?c\<lparr>ccnt := ccnt ?c + 1\<rparr>))"
    by blast
  then obtain c' where a: "attach cube_hooks ?c = Some (True, c')"
    by (simp add: cube_addCell_def)
  from C cube_hooks_keep a have "ccnt c' = ccnt ?c + 1" by blast
  then have "ccnt c' = 1" by simp
  with a b lt cube_hooks_keep show ?thesis by blast
qed

text \<open>
  C2 (amended). For a counted box with \<open>0 \<le> ccnt \<le> cmax\<close>, \<^verbatim>\<open>detach\<close> returns false
  exactly when \<open>ccnt = 0\<close>. Detaching from a full box of capacity \<open>cmax > 0\<close> is
  \<^verbatim>\<open>reset(cmax - 1)\<close> and leaves \<open>ccnt = cmax - 1\<close>; a cube then owns seven discrete
  cells and no merged one, a panel owns no slab. (A box of capacity 0, as the panels of
  a level 1 trooper, is full and empty at once: \<^verbatim>\<open>detach\<close> fails on it.)
\<close>

theorem C2_detach_contract:
  assumes "0 \<le> ccnt c" and "ccnt c \<le> cmax c"
  shows "((\<exists>c'. detach h c = Some (False, c')) = (ccnt c = 0)) \<and>
         (ccnt c = 0 \<longrightarrow> detach h c = Some (False, c)) \<and>
         (0 < cmax c \<and> ccnt c = cmax c \<longrightarrow>
            detach h c = map_option (Pair True) (reset h (cmax c - 1) c) \<and>
            (hooks_keep h \<longrightarrow> (\<forall>r c'. detach h c = Some (r, c') \<longrightarrow> r \<and> ccnt c' = cmax c - 1))) \<and>
         (cube_inv d \<and> ccnt d = cmax d \<longrightarrow>
            cube_detach d =
              Some (True, d\<lparr>ccnt := 7, cells := map (sub_cell d) (take 7 (centers d))\<rparr>)) \<and>
         (block_wf b \<and> 0 < cmax b \<and> ccnt b = cmax b \<longrightarrow>
            (\<exists>b'. block_detach b = Some (True, b') \<and> ccnt b' = cmax b - 1 \<and> slab b' = None)) \<and>
         hooks_keep cube_hooks \<and> hooks_keep block_hooks"
proof (intro conjI impI allI)
  show "(\<exists>c'. detach h c = Some (False, c')) = (ccnt c = 0)"
    using assms by (auto simp: detach_def split: option.splits)
next
  assume "ccnt c = 0"
  then show "detach h c = Some (False, c)" by (simp add: detach_empty)
next
  assume "0 < cmax c \<and> ccnt c = cmax c"
  then show "detach h c = map_option (Pair True) (reset h (cmax c - 1) c)"
    by (simp add: detach_def)
next
  fix r c' assume f: "0 < cmax c \<and> ccnt c = cmax c" and k: "hooks_keep h"
    and d: "detach h c = Some (r, c')"
  from detach_counts[OF k assms d] f show "r" "ccnt c' = cmax c - 1" by simp_all
next
  assume "cube_inv d \<and> ccnt d = cmax d"
  then have i: "cube_inv d" and e: "ccnt d = 8" by (simp_all add: cube_inv_def)
  from cube_detach_eq[OF i] e i show
    "cube_detach d = Some (True, d\<lparr>ccnt := 7, cells := map (sub_cell d) (take 7 (centers d))\<rparr>)"
    by (simp add: canon_cells_def cube_inv_def)
next
  assume "block_wf b \<and> 0 < cmax b \<and> ccnt b = cmax b"
  then have "block_wf b" "0 < cmax b" "ccnt b = cmax b" by simp_all
  from block_detach_full[OF this]
  show "\<exists>b'. block_detach b = Some (True, b') \<and> ccnt b' = cmax b - 1 \<and> slab b' = None" by blast
next
  show "hooks_keep cube_hooks" by (rule cube_hooks_keep)
next
  show "hooks_keep block_hooks" by (rule block_hooks_keep)
qed

theorem C2_detach_contract_witness:
  "0 \<le> ccnt ((newCube 0 0 0 1)\<lparr>ccnt := 8, cells := [merged_cell (newCube 0 0 0 1)]\<rparr>) \<and>
   ccnt ((newCube 0 0 0 1)\<lparr>ccnt := 8, cells := [merged_cell (newCube 0 0 0 1)]\<rparr>)
     = cmax ((newCube 0 0 0 1)\<lparr>ccnt := 8, cells := [merged_cell (newCube 0 0 0 1)]\<rparr>) \<and>
   0 < cmax ((newCube 0 0 0 1)\<lparr>ccnt := 8, cells := [merged_cell (newCube 0 0 0 1)]\<rparr>) \<and>
   hooks_keep cube_hooks \<and>
   cube_inv ((newCube 0 0 0 1)\<lparr>ccnt := 8, cells := [merged_cell (newCube 0 0 0 1)]\<rparr>) \<and>
   (\<exists>c'. detach cube_hooks ((newCube 0 0 0 1)\<lparr>ccnt := 8, cells := [merged_cell (newCube 0 0 0 1)]\<rparr>)
            = Some (True, c') \<and> ccnt c' = 7 \<and> length (cells c') = 7)"
proof -
  let ?c = "(newCube 0 0 0 1)\<lparr>ccnt := 8, cells := [merged_cell (newCube 0 0 0 1)]\<rparr>"
  have b: "0 \<le> ccnt ?c" "ccnt ?c \<le> cmax ?c" and f: "0 < cmax ?c" "ccnt ?c = cmax ?c" by simp_all
  have i: "cube_inv ?c" by (simp add: cube_inv_def canon_cells_def)
  from C2_detach_contract[OF b, of cube_hooks ?c] i f
  have "cube_detach ?c = Some (True, ?c\<lparr>ccnt := 7, cells := map (sub_cell ?c) (take 7 (centers ?c))\<rparr>)"
    by blast
  then have "\<exists>c'. detach cube_hooks ?c = Some (True, c') \<and> ccnt c' = 7 \<and> length (cells c') = 7"
    by (simp add: cube_detach_def)
  with b f i cube_hooks_keep show ?thesis by blast
qed

text \<open>
  The claim as stated fails on the first panel of a level 1 trooper: its count equals
  its capacity, 0, and \<^verbatim>\<open>detach\<close> returns false and leaves the count at 0, not at -1.
\<close>

theorem C2_capacity_zero_counterexample:
  "ccnt (newBlock (1 / 4) 0 0 1) = cmax (newBlock (1 / 4) 0 0 1) \<and>
   block_detach (newBlock (1 / 4) 0 0 1) = Some (False, newBlock (1 / 4) 0 0 1) \<and>
   ccnt (newBlock (1 / 4) 0 0 1) \<noteq> cmax (newBlock (1 / 4) 0 0 1) - 1"
  by (simp add: block_detach_def detach_empty)

text \<open>
  C3. A counted box created with \<open>ccnt = 0\<close> and \<open>cmax > 0\<close> keeps \<open>0 \<le> ccnt \<le> cmax\<close>
  (and its \<open>cmax\<close>) through every sequence of \<^verbatim>\<open>attach\<close>, \<^verbatim>\<open>detach\<close> and \<^verbatim>\<open>reset\<close>;
  the sequence is arbitrary, so the bounds hold after each of its prefixes, that is
  before and after every operation. The hooks are any that leave the counters alone,
  as those of cubes and panels do. On a new cube, and on a panel whose cubes are well
  formed, no operation of the sequence panics.
\<close>

theorem C3_count_invariant:
  assumes "hooks_keep h" and "ccnt c = 0" and "0 < cmax c"
  shows "(\<forall>c'. run_ops h ops c = Some c' \<longrightarrow>
            0 \<le> ccnt c' \<and> ccnt c' \<le> cmax c' \<and> cmax c' = cmax c) \<and>
         (\<exists>d. run_ops cube_hooks ops (newCube x y z s) = Some d \<and>
            0 \<le> ccnt d \<and> ccnt d \<le> cmax d \<and> cmax d = 8) \<and>
         (block_wf b \<longrightarrow> (\<exists>b'. run_ops block_hooks ops b = Some b' \<and> block_wf b')) \<and>
         hooks_keep cube_hooks \<and> hooks_keep block_hooks"
proof (intro conjI allI impI)
  fix c' assume r: "run_ops h ops c = Some c'"
  from assms have "0 \<le> ccnt c" "ccnt c \<le> cmax c" by simp_all
  from run_ops_counts[OF assms(1) this r]
  show "0 \<le> ccnt c'" "ccnt c' \<le> cmax c'" "cmax c' = cmax c" by simp_all
next
  from cube_run_ops_total[OF cube_inv_newCube, of ops x y z s] obtain d
    where "run_ops cube_hooks ops (newCube x y z s) = Some d" "cube_inv d" by blast
  then show "\<exists>d. run_ops cube_hooks ops (newCube x y z s) = Some d \<and>
            0 \<le> ccnt d \<and> ccnt d \<le> cmax d \<and> cmax d = 8"
    by (auto simp: cube_inv_def)
next
  assume "block_wf b"
  from block_run_ops_total[OF this] show "\<exists>b'. run_ops block_hooks ops b = Some b' \<and> block_wf b'" .
next
  show "hooks_keep cube_hooks" by (rule cube_hooks_keep)
next
  show "hooks_keep block_hooks" by (rule block_hooks_keep)
qed

theorem C3_count_invariant_witness:
  "hooks_keep cube_hooks \<and> ccnt (newCube 0 0 0 1) = 0 \<and> 0 < cmax (newCube 0 0 0 1) \<and>
   (\<exists>c'. run_ops cube_hooks [Attach, Reset 20, Detach, Detach, Reset (- 3), Attach] (newCube 0 0 0 1) = Some c'
      \<and> 0 \<le> ccnt c' \<and> ccnt c' \<le> cmax c' \<and> cmax c' = cmax (newCube 0 0 0 1))"
proof -
  have b: "ccnt (newCube 0 0 0 1) = 0" "0 < cmax (newCube 0 0 0 1)" by simp_all
  from C3_count_invariant[OF cube_hooks_keep b, of "[Attach, Reset 20, Detach, Detach, Reset (- 3), Attach]" 0 0 0 1]
  show ?thesis using cube_hooks_keep b by blast
qed

text \<open>
  C4 (amended). \<^verbatim>\<open>reset(k)\<close> calls the trash hook, sets \<open>ccnt\<close> to 0 and calls \<^verbatim>\<open>attach\<close>
  \<open>min k cmax\<close> times, no times when that is negative; it leaves
  \<open>ccnt = min (max k 0) cmax\<close>, which is \<open>min k cmax\<close> for \<open>k \<ge> 0\<close>. On cubes and on
  well-formed panels the reset does not panic.
\<close>

theorem C4_reset_count:
  assumes "hooks_keep h" and "0 \<le> cmax c"
  shows "reset h k c =
           (case trashc h c of
              None \<Rightarrow> None
            | Some c1 \<Rightarrow> attach_times h (nat (min k (cmax c1))) (c1\<lparr>ccnt := 0\<rparr>)) \<and>
         (\<forall>c'. reset h k c = Some c' \<longrightarrow> ccnt c' = min (max k 0) (cmax c)) \<and>
         (0 \<le> k \<longrightarrow> (\<forall>c'. reset h k c = Some c' \<longrightarrow> ccnt c' = min k (cmax c))) \<and>
         (cube_inv d \<longrightarrow> (\<exists>d'. cube_reset k d = Some d' \<and> ccnt d' = min (max k 0) (cmax d))) \<and>
         (block_wf b \<and> 0 \<le> cmax b \<longrightarrow>
            (\<exists>b'. block_reset k b = Some b' \<and> ccnt b' = min (max k 0) (cmax b))) \<and>
         hooks_keep cube_hooks \<and> hooks_keep block_hooks"
proof (intro conjI impI allI)
  show "reset h k c =
           (case trashc h c of
              None \<Rightarrow> None
            | Some c1 \<Rightarrow> attach_times h (nat (min k (cmax c1))) (c1\<lparr>ccnt := 0\<rparr>))"
    by (rule reset_unfold)
next
  fix c' assume "reset h k c = Some c'"
  from reset_counts[OF assms this] show "ccnt c' = min (max k 0) (cmax c)" by simp
next
  fix c' assume "0 \<le> k" "reset h k c = Some c'"
  with reset_counts[OF assms this(2)] show "ccnt c' = min k (cmax c)" by (simp add: max_def)
next
  assume i: "cube_inv d"
  from cube_reset_total[OF i, of k] i
  show "\<exists>d'. cube_reset k d = Some d' \<and> ccnt d' = min (max k 0) (cmax d)"
    by (auto simp: cube_inv_def)
next
  assume "block_wf b \<and> 0 \<le> cmax b"
  then have w: "block_wf b" and m: "0 \<le> cmax b" by simp_all
  from block_reset_total[OF w, of k] obtain b' where r: "block_reset k b = Some b'" by blast
  from reset_counts[OF block_hooks_keep m] r
  show "\<exists>b'. block_reset k b = Some b' \<and> ccnt b' = min (max k 0) (cmax b)"
    by (auto simp: block_reset_def)
next
  show "hooks_keep cube_hooks" by (rule cube_hooks_keep)
next
  show "hooks_keep block_hooks" by (rule block_hooks_keep)
qed

theorem C4_reset_count_witness:
  "hooks_keep cube_hooks \<and> 0 \<le> cmax (newCube 0 0 0 1) \<and> cube_inv (newCube 0 0 0 1) \<and>
   (\<exists>d'. cube_reset 5 (newCube 0 0 0 1) = Some d' \<and> ccnt d' = 5) \<and>
   (\<exists>d'. cube_reset 11 (newCube 0 0 0 1) = Some d' \<and> ccnt d' = 8)"
proof -
  have m: "0 \<le> cmax (newCube 0 0 0 1)" by simp
  note i = cube_inv_newCube[of 0 0 0 1]
  from C4_reset_count[OF cube_hooks_keep m, of 5 "newCube 0 0 0 1"] i
  have a: "\<exists>d'. cube_reset 5 (newCube 0 0 0 1) = Some d' \<and> ccnt d' = 5" by simp
  from C4_reset_count[OF cube_hooks_keep m, of 11 "newCube 0 0 0 1"] i
  have b: "\<exists>d'. cube_reset 11 (newCube 0 0 0 1) = Some d' \<and> ccnt d' = 8" by simp
  from a b m i cube_hooks_keep show ?thesis by blast
qed

text \<open>
  The claim as stated fails for a negative target: \<^verbatim>\<open>reset(-1)\<close> on a new cube leaves
  the count 0, while \<open>min (-1) 8 = -1\<close>.
\<close>

theorem C4_negative_target_counterexample:
  "map_option ccnt (cube_reset (- 1) (newCube 0 0 0 1)) = Some 0 \<and>
   min (- 1) (cmax (newCube 0 0 0 1)) = - 1"
  by (simp add: cube_reset_eq)

text \<open>
  C5 (amended). A trooper built at level 0 is one cube of capacity 8 seeded with one
  cell: its health right after construction is 1.
\<close>

theorem C5_level0_health:
  assumes "sorter_ok srt"
  shows "\<exists>tr c. newTrooper srt 0 = Some tr \<and> health tr = 1 \<and> bits tr = [Cube c] \<and>
           cmax c = 8 \<and> ccnt c = 1 \<and> length (cells c) = 1 \<and> neo tr = None \<and> center tr = None"
proof -
  let ?c = "seeded (sorted_cube srt csort_Less 0 0 0 1) 1"
  have "length (cells ?c) = 1" using assms by (simp add: length_canon_cells)
  with newTrooper_0[OF assms] show ?thesis by simp
qed

theorem C5_level0_health_witness:
  "sorter_ok insertion_sort \<and> map_option health (newTrooper insertion_sort 0) = Some 1"
proof -
  from C5_level0_health[OF sorter_ok_insertion_sort] obtain tr
    where "newTrooper insertion_sort 0 = Some tr" "health tr = 1" by blast
  with sorter_ok_insertion_sort show ?thesis by simp
qed

text \<open>The claim as stated fails: the health of a new level 0 trooper is 1, not 8.\<close>

theorem C5_health_not_8_counterexample:
  "map_option health (newTrooper insertion_sort 0) = Some 1 \<and>
   map_option health (newTrooper insertion_sort 0) \<noteq> Some 8"
  by (simp add: newTrooper_0[OF sorter_ok_insertion_sort])

text \<open>
  C6 (amended). On a cube with \<open>0 \<le> ccnt < 8\<close>, \<^verbatim>\<open>attach\<close> followed by \<^verbatim>\<open>detach\<close> gives back
  the very same cube: count and owned parts, also at \<open>ccnt = 7\<close>, where attach merges and
  detach rebuilds the seven cells. On any counted box whose hooks keep the counters, and
  so on a panel, the two calls succeed and restore the count; the parts of a panel are
  not restored in general.
\<close>

theorem C6_attach_detach_roundtrip:
  "(cube_inv d \<and> ccnt d < cmax d \<longrightarrow>
      (\<exists>d1. cube_attach d = Some (True, d1) \<and> ccnt d1 = ccnt d + 1 \<and>
            cube_detach d1 = Some (True, d))) \<and>
   (hooks_keep h \<and> 0 \<le> ccnt c \<and> ccnt c < cmax c \<longrightarrow>
      (\<forall>r1 c1 r2 c2. attach h c = Some (r1, c1) \<and> detach h c1 = Some (r2, c2) \<longrightarrow>
         r1 \<and> r2 \<and> ccnt c2 = ccnt c \<and> cmax c2 = cmax c)) \<and>
   (block_wf b \<and> 0 \<le> ccnt b \<and> ccnt b < cmax b \<longrightarrow>
      (\<exists>b1 b2. block_attach b = Some (True, b1) \<and> block_detach b1 = Some (True, b2) \<and>
         ccnt b2 = ccnt b)) \<and>
   hooks_keep cube_hooks \<and> hooks_keep block_hooks"
proof (intro conjI impI allI)
  assume "cube_inv d \<and> ccnt d < cmax d"
  then have i: "cube_inv d" and lt: "ccnt d < 8" by (simp_all add: cube_inv_def)
  from cube_inv_bounds[OF i] have b: "cmax d = 8" "length (centers d) = 8" "0 \<le> ccnt d" by simp_all
  let ?d1 = "seeded d (ccnt d + 1)"
  have a: "cube_attach d = Some (True, ?d1)" by (rule cube_attach_seeded[OF i lt])
  have i1: "cube_inv ?d1" using b lt by (intro cube_inv_seeded) simp_all
  have "cube_detach ?d1 = Some (True, seeded d (ccnt d))"
    using cube_detach_seeded[OF i1] b by simp
  with a cube_inv_is_seeded[OF i]
  show "\<exists>d1. cube_attach d = Some (True, d1) \<and> ccnt d1 = ccnt d + 1 \<and> cube_detach d1 = Some (True, d)"
    by simp
next
  fix r1 c1 r2 c2
  assume h: "hooks_keep h \<and> 0 \<le> ccnt c \<and> ccnt c < cmax c"
    and r: "attach h c = Some (r1, c1) \<and> detach h c1 = Some (r2, c2)"
  from h have k: "hooks_keep h" by simp
  from r have a: "attach h c = Some (r1, c1)" and d: "detach h c1 = Some (r2, c2)" by simp_all
  from attach_counts[OF k a] h have c1: "cmax c1 = cmax c" "ccnt c1 = ccnt c + 1" "r1" by simp_all
  with h have "0 \<le> ccnt c1" "ccnt c1 \<le> cmax c1" by simp_all
  from detach_counts[OF k this d] c1 h
  show "r1" "r2" "ccnt c2 = ccnt c" "cmax c2 = cmax c" by simp_all
next
  assume h: "block_wf b \<and> 0 \<le> ccnt b \<and> ccnt b < cmax b"
  then have w: "block_wf b" by simp
  from block_attach_total[OF w] obtain r1 b1 where a: "block_attach b = Some (r1, b1)"
    and w1: "block_wf b1" by blast
  from block_detach_total[OF w1] obtain r2 b2 where d: "block_detach b1 = Some (r2, b2)" by blast
  from a have a': "attach block_hooks b = Some (r1, b1)" by (simp add: block_attach_def)
  from d have d': "detach block_hooks b1 = Some (r2, b2)" by (simp add: block_detach_def)
  from attach_counts[OF block_hooks_keep a'] h
  have c1: "cmax b1 = cmax b" "ccnt b1 = ccnt b + 1" "r1" by simp_all
  with h have "0 \<le> ccnt b1" "ccnt b1 \<le> cmax b1" by simp_all
  from detach_counts[OF block_hooks_keep this d'] c1 h
  have "r2" "ccnt b2 = ccnt b" by simp_all
  with a d c1 show "\<exists>b1 b2. block_attach b = Some (True, b1) \<and> block_detach b1 = Some (True, b2) \<and>
         ccnt b2 = ccnt b" by simp
next
  show "hooks_keep cube_hooks" by (rule cube_hooks_keep)
next
  show "hooks_keep block_hooks" by (rule block_hooks_keep)
qed

theorem C6_attach_detach_roundtrip_witness:
  "cube_inv (seeded (newCube 0 0 0 1) 7) \<and>
   ccnt (seeded (newCube 0 0 0 1) 7) < cmax (seeded (newCube 0 0 0 1) 7) \<and>
   (\<exists>d1. cube_attach (seeded (newCube 0 0 0 1) 7) = Some (True, d1) \<and> ccnt d1 = 8 \<and>
      cube_detach d1 = Some (True, seeded (newCube 0 0 0 1) 7))"
proof -
  have i: "cube_inv (seeded (newCube 0 0 0 1) 7)" by (rule cube_inv_seeded) simp_all
  have lt: "ccnt (seeded (newCube 0 0 0 1) 7) < cmax (seeded (newCube 0 0 0 1) 7)" by simp
  from C6_attach_detach_roundtrip[of "seeded (newCube 0 0 0 1) 7"] i lt
  have "\<exists>d1. cube_attach (seeded (newCube 0 0 0 1) 7) = Some (True, d1) \<and>
     ccnt d1 = ccnt (seeded (newCube 0 0 0 1) 7) + 1 \<and>
     cube_detach d1 = Some (True, seeded (newCube 0 0 0 1) 7)" by blast
  with i lt show ?thesis by simp
qed

text \<open>
  The claim as stated fails on a panel. On the first panel of a new level 3 trooper
  (four cubes of 4 cells), after one \<^verbatim>\<open>attach\<close> the cubes hold 5, 4, 4 and 4 cells. A further
  \<^verbatim>\<open>attach\<close> goes to the second cube, the first with the least cells; the \<^verbatim>\<open>detach\<close> that
  follows takes from the first cube, the first that has a cell. The count is 17 before
  and after, the cells are not the same: 4, 5, 4 and 4.
\<close>

theorem C6_panel_parts_counterexample:
  "map_option ccnt
     (Option.bind (Option.bind (newTrooper insertion_sort 3) (panel_at 0)) attach_only) = Some 17 \<and>
   map_option cube_parts
     (Option.bind (Option.bind (newTrooper insertion_sort 3) (panel_at 0)) attach_only)
     = Some [5, 4, 4, 4] \<and>
   map_option ccnt
     (Option.bind (Option.bind (Option.bind (newTrooper insertion_sort 3) (panel_at 0)) attach_only)
        attach_then_detach) = Some 17 \<and>
   map_option cube_parts
     (Option.bind (Option.bind (Option.bind (newTrooper insertion_sort 3) (panel_at 0)) attach_only)
        attach_then_detach) = Some [4, 5, 4, 4]"
  by (simp only: panel3_roundtrip, simp only: panel3_attached,
      simp add: cube_parts_def canon_cells_def sorter_ok_insertion_sort)

text \<open>
  C8 (amended). A cube is either exploded or merged, never both, after every \<^verbatim>\<open>attach\<close>,
  \<^verbatim>\<open>detach\<close> and \<^verbatim>\<open>reset\<close>: with \<open>ccnt < 8\<close> it owns exactly the \<open>ccnt\<close> discrete cells at
  its first \<open>ccnt\<close> centres and no merged cell, with \<open>ccnt = 8\<close> exactly the merged cell.
  New cubes, and the cubes \<^verbatim>\<open>edgeSort\<close> and \<^verbatim>\<open>panelSort\<close> seed, are in that form, and
  the three operations keep it. (\<^verbatim>\<open>trash\<close> alone, as the trooper calls it on its way to
  \<^verbatim>\<open>neo\<close>, removes the parts and leaves the count.)
\<close>

theorem C8_cube_representation:
  "cube_inv (newCube x y z s) \<and>
   cube_trash c = Some (c\<lparr>cells := []\<rparr>) \<and>
   (sorter_ok srt \<longrightarrow>
      (\<exists>c'. edgeSort srt k (newCube x y z s) = Some c' \<and> cube_inv c') \<and>
      (\<exists>c'. panelSort srt rx ry rz k (newCube x y z s) = Some c' \<and> cube_inv c')) \<and>
   (cube_inv c \<longrightarrow>
      (ccnt c < 8 \<longrightarrow>
         cells c = map (sub_cell c) (take (nat (ccnt c)) (centers c)) \<and>
         int (length (cells c)) = ccnt c) \<and>
      (ccnt c = 8 \<longrightarrow> cells c = [merged_cell c]) \<and>
      (\<exists>r c'. cube_attach c = Some (r, c') \<and> cube_inv c') \<and>
      (\<exists>r c'. cube_detach c = Some (r, c') \<and> cube_inv c') \<and>
      (\<exists>c'. cube_reset k c = Some c' \<and> cube_inv c'))"
proof (intro conjI impI)
  show "cube_inv (newCube x y z s)" by (rule cube_inv_newCube)
next
  show "cube_trash c = Some (c\<lparr>cells := []\<rparr>)" by (rule cube_trash_eq)
next
  assume ok: "sorter_ok srt"
  have "cube_inv (seeded (sorted_cube srt csort_Less x y z s) (min (max k 0) 8))"
    by (rule cube_inv_seeded_sorted[OF ok]) simp_all
  with edgeSort_eq[OF ok] show "\<exists>c'. edgeSort srt k (newCube x y z s) = Some c' \<and> cube_inv c'"
    by simp
next
  assume ok: "sorter_ok srt"
  have "cube_inv (seeded (sorted_cube srt (ssort_Less rx ry rz) x y z s) (min (max k 0) 8))"
    by (rule cube_inv_seeded_sorted[OF ok]) simp_all
  with panelSort_eq[OF ok]
  show "\<exists>c'. panelSort srt rx ry rz k (newCube x y z s) = Some c' \<and> cube_inv c'" by simp
next
  assume i: "cube_inv c" and lt: "ccnt c < 8"
  then show "cells c = map (sub_cell c) (take (nat (ccnt c)) (centers c))"
    by (simp add: cube_inv_def canon_cells_def)
  from i lt show "int (length (cells c)) = ccnt c" by (simp add: cube_inv_def canon_cells_def)
next
  assume "cube_inv c" "ccnt c = 8"
  then show "cells c = [merged_cell c]" by (simp add: cube_inv_def canon_cells_def)
next
  assume "cube_inv c"
  then show "\<exists>r c'. cube_attach c = Some (r, c') \<and> cube_inv c'" by (rule cube_attach_total)
next
  assume "cube_inv c"
  then show "\<exists>r c'. cube_detach c = Some (r, c') \<and> cube_inv c'" by (rule cube_detach_total)
next
  assume "cube_inv c"
  from cube_reset_total[OF this, of k] show "\<exists>c'. cube_reset k c = Some c' \<and> cube_inv c'" by blast
qed

theorem C8_cube_representation_witness:
  "sorter_ok insertion_sort \<and> cube_inv (seeded (newCube 0 0 0 1) 3) \<and>
   ccnt (seeded (newCube 0 0 0 1) 3) < 8 \<and>
   length (cells (seeded (newCube 0 0 0 1) 3)) = 3 \<and>
   (\<exists>r c'. cube_attach (seeded (newCube 0 0 0 1) 3) = Some (r, c') \<and> cube_inv c') \<and>
   (\<exists>c'. edgeSort insertion_sort 2 (newCube 0 0 0 1) = Some c' \<and> cube_inv c')"
proof -
  have i: "cube_inv (seeded (newCube 0 0 0 1) 3)" by (rule cube_inv_seeded) simp_all
  have lt: "ccnt (seeded (newCube 0 0 0 1) 3) < 8" by simp
  note C = C8_cube_representation[where x = 0 and y = 0 and z = 0 and s = 1 and srt = insertion_sort
      and k = 2 and c = "seeded (newCube 0 0 0 1) 3"]
  from C i lt have "int (length (cells (seeded (newCube 0 0 0 1) 3))) = ccnt (seeded (newCube 0 0 0 1) 3)"
    by blast
  then have l: "length (cells (seeded (newCube 0 0 0 1) 3)) = 3" by simp
  from C i have a: "\<exists>r c'. cube_attach (seeded (newCube 0 0 0 1) 3) = Some (r, c') \<and> cube_inv c'"
    by blast
  from C sorter_ok_insertion_sort
  have e: "\<exists>c'. edgeSort insertion_sort 2 (newCube 0 0 0 1) = Some c' \<and> cube_inv c'" by blast
  from i lt l a e sorter_ok_insertion_sort show ?thesis by blast
qed

text \<open>
  The claim as stated fails for \<^verbatim>\<open>trash\<close>: after eight calls of \<^verbatim>\<open>attach\<close> on a new level 0
  trooper its cube has count 8 and owns no part at all.
\<close>

theorem C8_trashed_cube_counterexample:
  "map_option (map (\<lambda>b. (box_ccnt b, length (box_parts b))) \<circ> bits \<circ> snd)
     (Option.bind (newTrooper insertion_sort 0) (grow 8)) = Some [(8, 0)]"
  by (simp add: newTrooper_0[OF sorter_ok_insertion_sort] grow8_trooper0[OF sorter_ok_insertion_sort])

text \<open>
  C9. On a new level 0 trooper the first seven calls of \<^verbatim>\<open>attach\<close> (\<open>grow\<close>) are taken by
  the cube and none reaches \<^verbatim>\<open>evolve\<close>; the eighth finds the cube full and calls
  \<^verbatim>\<open>evolve\<close>, which finds no \<^verbatim>\<open>neo\<close> and creates it. So eight calls reach \<^verbatim>\<open>evolve\<close>
  exactly once, and afterwards the trooper owns exactly one part, the merged \<^verbatim>\<open>neo\<close>.
\<close>

theorem C9_grow_eight_times:
  assumes "sorter_ok srt"
  shows "\<exists>t0 t7 t8. newTrooper srt 0 = Some t0 \<and>
           grow 7 t0 = Some (0, t7) \<and> neo t7 = None \<and> health t7 = 8 \<and>
           reaches_evolve t7 \<and>
           grow 8 t0 = Some (1, t8) \<and> neo t8 = Some neo_part \<and>
           owned_parts t8 = [neo_part] \<and> health t8 = 8"
proof -
  have "grow 7 (trooper0 srt 1) = Some (0, trooper0 srt 8)"
    using grow_trooper0[OF assms, of 1 7] by simp
  with newTrooper_0[OF assms] grow8_trooper0[OF assms] trooper0_full(2)[OF assms]
    owned_trooper0_evolved[of srt]
  show ?thesis by simp
qed

theorem C9_grow_eight_times_witness:
  "sorter_ok insertion_sort \<and>
   map_option fst (Option.bind (newTrooper insertion_sort 0) (grow 8)) = Some 1 \<and>
   map_option (owned_parts \<circ> snd) (Option.bind (newTrooper insertion_sort 0) (grow 8)) = Some [neo_part] \<and>
   map_option fst (Option.bind (newTrooper insertion_sort 0) (grow 7)) = Some 0"
proof -
  from C9_grow_eight_times[OF sorter_ok_insertion_sort] obtain t0 t7 t8
    where "newTrooper insertion_sort 0 = Some t0" "grow 7 t0 = Some (0, t7)"
      "grow 8 t0 = Some (1, t8)" "owned_parts t8 = [neo_part]" by blast
  with sorter_ok_insertion_sort show ?thesis by simp
qed



end
